theory Spec2Isabelle
  imports Main "HOL-Library.AList"
begin

section \<open>Decoded JSON values and the Python operations the client applies to them\<close>

text \<open>
  The body of a \<^verbatim>\<open>/sync\<close> reply reaches \<^verbatim>\<open>MatrixClient._sync\<close> as the value
  decoded from JSON. A dictionary is an association list in insertion order; the
  decoder produces dictionaries with distinct keys.
\<close>

datatype json =
    JNull
  | JBool bool
  | JNum int
  | JStr string
  | JArr "json list"
  | JObj "(string \<times> json) list"

datatype error =
    KeyError string
  | TypeError
  | AttributeError
  | RuntimeError
  | MatrixRequestError int
  | ValueError
  | OtherException nat

text \<open>\<^verbatim>\<open>d[k]\<close>: a missing key raises KeyError, a value that is no dictionary
  raises TypeError.\<close>

fun getitem :: "json \<Rightarrow> string \<Rightarrow> error + json" where
  "getitem (JObj kvs) k = (case map_of kvs k of None \<Rightarrow> Inl (KeyError k) | Some v \<Rightarrow> Inr v)"
| "getitem _ k = Inl TypeError"

text \<open>\<^verbatim>\<open>d[k] = v\<close>: an existing key keeps its position, a new key goes last.\<close>

fun setitem :: "json \<Rightarrow> string \<Rightarrow> json \<Rightarrow> error + json" where
  "setitem (JObj kvs) k v = Inr (JObj (AList.update k v kvs))"
| "setitem _ k v = Inl TypeError"

text \<open>\<^verbatim>\<open>d.get(k)\<close> and \<^verbatim>\<open>d.items()\<close> exist on dictionaries only.\<close>

fun get_default :: "json \<Rightarrow> string \<Rightarrow> error + json" where
  "get_default (JObj kvs) k = (case map_of kvs k of None \<Rightarrow> Inr JNull | Some v \<Rightarrow> Inr v)"
| "get_default _ k = Inl AttributeError"

fun items :: "json \<Rightarrow> error + (string \<times> json) list" where
  "items (JObj kvs) = Inr kvs"
| "items _ = Inl AttributeError"

text \<open>\<^verbatim>\<open>for x in v\<close>: a list yields its elements, a dictionary its keys, a string its
  characters; anything else is not iterable.\<close>

fun iter :: "json \<Rightarrow> error + json list" where
  "iter (JArr xs) = Inr xs"
| "iter (JObj kvs) = Inr (map (\<lambda>kv. JStr (fst kv)) kvs)"
| "iter (JStr s) = Inr (map (\<lambda>c. JStr [c]) s)"
| "iter _ = Inl TypeError"

primrec substring :: "string \<Rightarrow> string \<Rightarrow> bool" where
  "substring k [] = (k = [])"
| "substring k (c # cs) = (take (length k) (c # cs) = k \<or> substring k cs)"

text \<open>\<^verbatim>\<open>k in v\<close> for a string \<open>k\<close>.\<close>

fun contains :: "json \<Rightarrow> string \<Rightarrow> error + bool" where
  "contains (JObj kvs) k = Inr (k \<in> set (map fst kvs))"
| "contains (JArr xs) k = Inr (JStr k \<in> set xs)"
| "contains (JStr s) k = Inr (substring k s)"
| "contains _ k = Inl TypeError"

fun truthy :: "json \<Rightarrow> bool" where
  "truthy JNull = False"
| "truthy (JBool b) = b"
| "truthy (JNum n) = (n \<noteq> 0)"
| "truthy (JStr s) = (s \<noteq> [])"
| "truthy (JArr xs) = (xs \<noteq> [])"
| "truthy (JObj kvs) = (kvs \<noteq> [])"

definition bind_e :: "error + 'a \<Rightarrow> ('a \<Rightarrow> error + 'b) \<Rightarrow> error + 'b" where
  "bind_e x f = (case x of Inl e \<Rightarrow> Inl e | Inr v \<Rightarrow> f v)"

section \<open>Session state of \<^verbatim>\<open>MatrixClient\<close>\<close>

text \<open>
  A listener id is the value of \<^verbatim>\<open>uuid4()\<close>; a callback is named by a number and run
  by the environment (see \<open>ext\<close> below).
\<close>

type_synonym uid = nat
type_synonym callback = nat

record listener =
  uid :: uid
  callback :: callback
  event_type :: "string option"

text \<open>The fields of a \<^verbatim>\<open>Room\<close> that \<^verbatim>\<open>client.py\<close> reads or writes; the rest of the
  object belongs to the environment.\<close>

record room =
  room_id :: string
  prev_batch :: json
  encrypted :: bool

record client =
  listeners :: "listener list"
  presence_listeners :: "(uid \<times> callback) list"
  invite_listeners :: "callback list"
  left_listeners :: "callback list"
  ephemeral_listeners :: "listener list"
  encryption :: bool
  first_sync :: bool
  verify_devices :: bool
  sync_token :: json
  sync_filter :: string
  sync_thread :: "nat option"
  should_listen :: bool
  bad_sync_timeout_limit :: int
  rooms :: "(string \<times> room) list"

text \<open>The state \<^verbatim>\<open>__init__\<close> leaves behind when no access token is given and the other
  arguments keep their defaults; the argument is the filter string, formatted with
  \<^verbatim>\<open>sync_filter_limit\<close>.\<close>

definition init_client :: "string \<Rightarrow> client" where
  "init_client formatted_filter =
     \<lparr> listeners = [], presence_listeners = [], invite_listeners = [], left_listeners = [],
       ephemeral_listeners = [], encryption = False, first_sync = True,
       verify_devices = False, sync_token = JNull, sync_filter = formatted_filter,
       sync_thread = None, should_listen = False, bad_sync_timeout_limit = 60 * 60,
       rooms = [] \<rparr>"

section \<open>Listener registries\<close>

text \<open>
  Each \<open>add\<close> takes the fresh value that \<^verbatim>\<open>uuid4()\<close> draws and returns what the Python
  method returns: \<open>Some\<close> id, or \<open>None\<close> for a method without a return statement.
\<close>

definition add_listener :: "uid \<Rightarrow> callback \<Rightarrow> string option \<Rightarrow> client \<Rightarrow> uid option \<times> client" where
  "add_listener listener_uid cb et c =
     (Some listener_uid,
      c\<lparr>listeners := listeners c @ [\<lparr>uid = listener_uid, callback = cb, event_type = et\<rparr>]\<rparr>)"

definition remove_listener :: "uid \<Rightarrow> client \<Rightarrow> client" where
  "remove_listener u c = c\<lparr>listeners := filter (\<lambda>l. uid l \<noteq> u) (listeners c)\<rparr>"

definition add_presence_listener :: "uid \<Rightarrow> callback \<Rightarrow> client \<Rightarrow> uid option \<times> client" where
  "add_presence_listener listener_uid cb c =
     (Some listener_uid,
      c\<lparr>presence_listeners := AList.update listener_uid cb (presence_listeners c)\<rparr>)"

text \<open>\<^verbatim>\<open>self.presence_listeners.pop(uid)\<close> raises KeyError for an id that is not a key of
  the dictionary; the error names the key, written \<open>uid\<close> here.\<close>

definition remove_presence_listener :: "uid \<Rightarrow> client \<Rightarrow> error + client" where
  "remove_presence_listener u c =
     (case map_of (presence_listeners c) u of
        None \<Rightarrow> Inl (KeyError ''uid'')
      | Some cb \<Rightarrow> Inr (c\<lparr>presence_listeners := AList.delete u (presence_listeners c)\<rparr>))"

definition add_ephemeral_listener :: "uid \<Rightarrow> callback \<Rightarrow> string option \<Rightarrow> client \<Rightarrow> uid option \<times> client" where
  "add_ephemeral_listener listener_id cb et c =
     (Some listener_id,
      c\<lparr>ephemeral_listeners :=
          ephemeral_listeners c @ [\<lparr>uid = listener_id, callback = cb, event_type = et\<rparr>]\<rparr>)"

definition remove_ephemeral_listener :: "uid \<Rightarrow> client \<Rightarrow> client" where
  "remove_ephemeral_listener u c =
     c\<lparr>ephemeral_listeners := filter (\<lambda>l. uid l \<noteq> u) (ephemeral_listeners c)\<rparr>"

definition add_invite_listener :: "callback \<Rightarrow> client \<Rightarrow> uid option \<times> client" where
  "add_invite_listener cb c = (None, c\<lparr>invite_listeners := invite_listeners c @ [cb]\<rparr>)"

definition add_leave_listener :: "callback \<Rightarrow> client \<Rightarrow> uid option \<times> client" where
  "add_leave_listener cb c = (None, c\<lparr>left_listeners := left_listeners c @ [cb]\<rparr>)"

section \<open>The environment: collaborators, callbacks and the trace of a run\<close>

text \<open>
  Everything \<^verbatim>\<open>client.py\<close> calls but does not define is an action handed to the
  environment \<open>ext\<close>: the transport (\<^verbatim>\<open>api.sync\<close>, \<^verbatim>\<open>api.get_state_event\<close>), the
  \<^verbatim>\<open>Room\<close> methods, the Olm device and the registered callbacks. The environment sees
  the client and a state \<open>'h\<close> of its own, returns a value or raises, and may change
  both. The assignments of \<^verbatim>\<open>_sync\<close> whose place among the calls matters
  (\<open>SetSyncToken\<close>, \<open>DropRoom\<close>, \<open>SetRoom\<close>, \<open>SetPrevBatch\<close>) and \<open>Sleep\<close> are
  recorded in the trace without passing through \<open>ext\<close>. A callback gets the event as
  a value: callbacks that rewrite the event dictionary they are handed are outside
  the model.
\<close>

datatype action =
    ApiSync json int string
  | UpdateUserDeviceKeys json json
  | StopTrackingUsers json
  | SetSyncToken json
  | UpdateAfterRestart json
  | PresenceCallback callback json
  | InviteListener callback string json
  | LeftListener callback string json
  | DropRoom string
  | HandleEncryptedEvent json
  | HandleKeyRequest json
  | TriggerKeyRequestsCallback
  | UpdateOneTimeKeyCounts json
  | NewRoom string bool
  | GetStateEvent string string
  | SetRoom string
  | SetPrevBatch string json
  | ProcessStateEvent string json
  | PutEvent string json
  | ListenerCallback uid callback json
  | TrackPendingUsers
  | PutEphemeralEvent string json
  | EphemeralCallback uid callback json
  | Sleep int
  | ExceptionHandler callback error

text \<open>
  \<open>ApiSync\<close> is \<^verbatim>\<open>api.sync(since, timeout_ms, filter)\<close> and \<open>GetStateEvent\<close> is
  \<^verbatim>\<open>api.get_state_event(room_id, event_type)\<close>; \<open>NewRoom\<close> is the constructor
  \<^verbatim>\<open>Room(self, room_id, verify_devices)\<close>; \<open>ProcessStateEvent\<close>, \<open>PutEvent\<close> and
  \<open>PutEphemeralEvent\<close> are the methods \<^verbatim>\<open>_process_state_event\<close>, \<^verbatim>\<open>_put_event\<close> and
  \<^verbatim>\<open>_put_ephemeral_event\<close> of the room with the given id; \<open>ListenerCallback\<close> and
  \<open>EphemeralCallback\<close> name the uid of the listener whose callback is called. The
  other actions are the methods of the Olm device, the registered callbacks and the
  exception handler of \<^verbatim>\<open>listen_forever\<close>.
\<close>

type_synonym 'h ext = "action \<Rightarrow> client \<times> 'h \<Rightarrow> (error + json) \<times> client \<times> 'h"

record 'h world =
  cl :: client
  hid :: "'h"
  trace :: "action list"

text \<open>A statement ends normally (\<open>None\<close>) or with a raised exception, in the world
  it has reached; a loop that never ends has no result.\<close>

type_synonym 'h result = "error option \<times> 'h world"
type_synonym 'h stmt = "'h world \<Rightarrow> 'h result option"

definition emit :: "action \<Rightarrow> 'h world \<Rightarrow> 'h world" where
  "emit a w = w\<lparr>trace := trace w @ [a]\<rparr>"

definition call :: "'h ext \<Rightarrow> action \<Rightarrow> 'h world \<Rightarrow> (error + json) \<times> 'h world" where
  "call ext a w =
     (case ext a (cl w, hid w) of
        (r, c, h) \<Rightarrow> (r, \<lparr>cl = c, hid = h, trace = trace w @ [a]\<rparr>))"

definition invoke :: "'h ext \<Rightarrow> action \<Rightarrow> 'h world \<Rightarrow> 'h result" where
  "invoke ext a w = (case call ext a w of (Inl e, w') \<Rightarrow> (Some e, w') | (Inr v, w') \<Rightarrow> (None, w'))"

definition ok :: "'h stmt" where
  "ok w = Some (None, w)"

definition total :: "('h world \<Rightarrow> 'h result) \<Rightarrow> 'h stmt" where
  "total f w = Some (f w)"

definition seq :: "'h stmt \<Rightarrow> 'h stmt \<Rightarrow> 'h stmt" where
  "seq a b w =
     (case a w of
        None \<Rightarrow> None
      | Some (Some e, w') \<Rightarrow> Some (Some e, w')
      | Some (None, w') \<Rightarrow> b w')"

definition lookup :: "error + 'a \<Rightarrow> ('a \<Rightarrow> 'h stmt) \<Rightarrow> 'h stmt" where
  "lookup x k w = (case x of Inl e \<Rightarrow> Some (Some e, w) | Inr v \<Rightarrow> k v w)"

text \<open>A \<^verbatim>\<open>for\<close> loop over a list of the response, which no callee can reach.\<close>

primrec foreach :: "'a list \<Rightarrow> ('a \<Rightarrow> 'h stmt) \<Rightarrow> 'h stmt" where
  "foreach [] body = ok"
| "foreach (x # xs) body = seq (body x) (foreach xs body)"

text \<open>
  A \<^verbatim>\<open>for\<close> loop over a list attribute of the client. Python's list iterator keeps an
  index into the live list: each round reads the element at the index from the list
  as it is then, and the loop ends when the index reaches the current length.
\<close>

partial_function (option) for_live ::
  "('h world \<Rightarrow> 'a list) \<Rightarrow> ('a \<Rightarrow> 'h world \<Rightarrow> 'h result) \<Rightarrow> nat \<Rightarrow> 'h world \<Rightarrow> 'h result option"
where
  "for_live xs body i w =
     (if i < length (xs w) then
        (case body (xs w ! i) w of
           (Some e, w') \<Rightarrow> Some (Some e, w')
         | (None, w') \<Rightarrow> for_live xs body (Suc i) w')
      else Some (None, w))"

declare for_live.simps [code]

section \<open>\<^verbatim>\<open>MatrixClient._mkroom\<close>\<close>

definition set_room :: "string \<Rightarrow> room \<Rightarrow> 'h world \<Rightarrow> 'h world" where
  "set_room rid r w = emit (SetRoom rid) (w\<lparr>cl := (cl w)\<lparr>rooms := AList.update rid r (rooms (cl w))\<rparr>\<rparr>)"

text \<open>The \<^verbatim>\<open>Room\<close> constructor is a call of the environment; the new object starts
  unencrypted and without a pagination cursor.\<close>

definition mkroom :: "'h ext \<Rightarrow> string \<Rightarrow> 'h world \<Rightarrow> 'h result" where
  "mkroom ext rid w =
     (case invoke ext (NewRoom rid (verify_devices (cl w))) w of
        (Some e, w1) \<Rightarrow> (Some e, w1)
      | (None, w1) \<Rightarrow>
          (let r = \<lparr>room_id = rid, prev_batch = JNull, encrypted = False\<rparr> in
           if encryption (cl w1) then
             (case call ext (GetStateEvent rid ''m.room.encryption'') w1 of
                (Inl (MatrixRequestError code), w2) \<Rightarrow>
                  if code \<noteq> 404 then (Some (MatrixRequestError code), w2)
                  else (None, set_room rid r w2)
              | (Inl e, w2) \<Rightarrow> (Some e, w2)
              | (Inr event, w2) \<Rightarrow>
                  (case getitem event ''algorithm'' of
                     Inl e \<Rightarrow> (Some e, w2)
                   | Inr alg \<Rightarrow>
                       (None, set_room rid
                          (if alg = JStr ''m.megolm.v1.aes-sha2'' then r\<lparr>encrypted := True\<rparr> else r) w2)))
           else (None, set_room rid r w1)))"

section \<open>\<^verbatim>\<open>MatrixClient._sync\<close>\<close>

text \<open>Lines 666-672: device lists, with encryption only.\<close>

definition sync_device_lists :: "'h ext \<Rightarrow> json \<Rightarrow> 'h stmt" where
  "sync_device_lists ext response w =
     (if encryption (cl w) then
        lookup (contains response ''device_lists'') (\<lambda>present.
          if present then
            seq (lookup (bind_e (getitem response ''device_lists'') (\<lambda>d. get_default d ''changed''))
                   (\<lambda>changed. if truthy changed
                      then total (invoke ext (UpdateUserDeviceKeys changed (sync_token (cl w))))
                      else ok))
                (lookup (bind_e (getitem response ''device_lists'') (\<lambda>d. get_default d ''left''))
                   (\<lambda>left. if truthy left then total (invoke ext (StopTrackingUsers left)) else ok))
          else ok) w
      else ok w)"

text \<open>Line 674: \<^verbatim>\<open>self.sync_token = response["next_batch"]\<close>.\<close>

definition sync_set_token :: "json \<Rightarrow> 'h stmt" where
  "sync_set_token response =
     lookup (getitem response ''next_batch'')
       (\<lambda>tok w. Some (None, emit (SetSyncToken tok) (w\<lparr>cl := (cl w)\<lparr>sync_token := tok\<rparr>\<rparr>)))"

text \<open>Lines 676-678.\<close>

definition sync_first :: "'h ext \<Rightarrow> 'h stmt" where
  "sync_first ext w =
     (if encryption (cl w) \<and> first_sync (cl w) then
        (let w1 = w\<lparr>cl := (cl w)\<lparr>first_sync := False\<rparr>\<rparr>
         in Some (invoke ext (UpdateAfterRestart (sync_token (cl w1))) w1))
      else ok w)"

text \<open>
  Lines 680-682. The inner loop runs over \<^verbatim>\<open>self.presence_listeners.values()\<close>: the
  iterator of a dictionary view raises RuntimeError at its next step once the size of
  the dictionary differs from the size at the start of the loop. Where a callback
  changes the dictionary and keeps its size, Python leaves the order of the remaining
  rounds open; the model then follows the values as they were at the start.
\<close>

fun presence_values :: "'h ext \<Rightarrow> nat \<Rightarrow> callback list \<Rightarrow> json \<Rightarrow> 'h world \<Rightarrow> 'h result" where
  "presence_values ext n [] presence_update w =
     (if length (presence_listeners (cl w)) \<noteq> n then (Some RuntimeError, w) else (None, w))"
| "presence_values ext n (cb # cbs) presence_update w =
     (if length (presence_listeners (cl w)) \<noteq> n then (Some RuntimeError, w)
      else (case invoke ext (PresenceCallback cb presence_update) w of
              (Some e, w') \<Rightarrow> (Some e, w')
            | (None, w') \<Rightarrow> presence_values ext n cbs presence_update w'))"

definition sync_presence :: "'h ext \<Rightarrow> json \<Rightarrow> 'h stmt" where
  "sync_presence ext response =
     lookup (bind_e (bind_e (getitem response ''presence'') (\<lambda>p. getitem p ''events'')) iter)
       (\<lambda>updates. foreach updates (\<lambda>presence_update w.
          Some (presence_values ext (length (presence_listeners (cl w)))
                  (map snd (presence_listeners (cl w))) presence_update w)))"

text \<open>Lines 684-686.\<close>

definition sync_invite :: "'h ext \<Rightarrow> json \<Rightarrow> 'h stmt" where
  "sync_invite ext response =
     lookup (bind_e (bind_e (getitem response ''rooms'') (\<lambda>r. getitem r ''invite'')) items)
       (\<lambda>invites. foreach invites (\<lambda>(rid, invite_room).
          for_live (\<lambda>w. invite_listeners (cl w))
            (\<lambda>listener w.
               (case getitem invite_room ''invite_state'' of
                  Inl e \<Rightarrow> (Some e, w)
                | Inr st \<Rightarrow> invoke ext (InviteListener listener rid st) w)) 0))"

text \<open>Lines 688-692. \<open>DropRoom\<close> records the statement
  \<^verbatim>\<open>if room_id in self.rooms: del self.rooms[room_id]\<close>, whether or not the room was there.\<close>

definition drop_room :: "string \<Rightarrow> 'h world \<Rightarrow> 'h world" where
  "drop_room rid w =
     emit (DropRoom rid)
       (if rid \<in> set (map fst (rooms (cl w)))
        then w\<lparr>cl := (cl w)\<lparr>rooms := AList.delete rid (rooms (cl w))\<rparr>\<rparr>
        else w)"

definition sync_leave :: "'h ext \<Rightarrow> json \<Rightarrow> 'h stmt" where
  "sync_leave ext response =
     lookup (bind_e (bind_e (getitem response ''rooms'') (\<lambda>r. getitem r ''leave'')) items)
       (\<lambda>leaves. foreach leaves (\<lambda>(rid, left_room).
          seq (for_live (\<lambda>w. left_listeners (cl w))
                 (\<lambda>listener. invoke ext (LeftListener listener rid left_room)) 0)
              (\<lambda>w. Some (None, drop_room rid w))))"

text \<open>Lines 694-706: to-device events and one-time keys, acted on with encryption only.\<close>

definition sync_to_device :: "'h ext \<Rightarrow> json \<Rightarrow> 'h stmt" where
  "sync_to_device ext response =
     seq (lookup (contains response ''to_device'') (\<lambda>present.
            if present then
              lookup (bind_e (bind_e (getitem response ''to_device'') (\<lambda>t. getitem t ''events'')) iter)
                (\<lambda>events. foreach events (\<lambda>event w.
                   if encryption (cl w) then
                     (case getitem event ''type'' of
                        Inl e \<Rightarrow> Some (Some e, w)
                      | Inr t \<Rightarrow>
                          if t = JStr ''m.room.encrypted''
                          then Some (invoke ext (HandleEncryptedEvent event) w)
                          else if t = JStr ''m.room_key_request''
                          then Some (invoke ext (HandleKeyRequest event) w)
                          else ok w)
                   else ok w))
            else ok))
         (\<lambda>w. if encryption (cl w) then Some (invoke ext TriggerKeyRequestsCallback w) else ok w)"

definition sync_one_time_keys :: "'h ext \<Rightarrow> json \<Rightarrow> 'h stmt" where
  "sync_one_time_keys ext response w =
     (if encryption (cl w) then
        lookup (contains response ''device_one_time_keys_count'') (\<lambda>present.
          if present then
            lookup (getitem response ''device_one_time_keys_count'')
              (\<lambda>counts. total (invoke ext (UpdateOneTimeKeyCounts counts)))
          else ok) w
      else ok w)"

text \<open>Lines 727-732 and 742-747: one listener of a fan-out. The filter is looked at
  first; the type of the event is read only when the listener has a filter.\<close>

definition dispatch ::
  "'h ext \<Rightarrow> (uid \<Rightarrow> callback \<Rightarrow> json \<Rightarrow> action) \<Rightarrow> json \<Rightarrow> listener \<Rightarrow> 'h world \<Rightarrow> 'h result" where
  "dispatch ext mk event l w =
     (case event_type l of
        None \<Rightarrow> invoke ext (mk (uid l) (callback l) event) w
      | Some t \<Rightarrow>
          (case getitem event ''type'' of
             Inl e \<Rightarrow> (Some e, w)
           | Inr v \<Rightarrow> if v = JStr t then invoke ext (mk (uid l) (callback l) event) w else (None, w)))"

definition set_prev_batch :: "string \<Rightarrow> json \<Rightarrow> 'h world \<Rightarrow> 'h world" where
  "set_prev_batch rid pb w =
     emit (SetPrevBatch rid pb)
       (w\<lparr>cl := (cl w)\<lparr>rooms := AList.map_entry rid (\<lambda>r. r\<lparr>prev_batch := pb\<rparr>) (rooms (cl w))\<rparr>\<rparr>)"

text \<open>\<^verbatim>\<open>room.encrypted\<close> of line 734; a room that a callee has meanwhile taken out of
  \<^verbatim>\<open>self.rooms\<close> is read as not encrypted.\<close>

definition room_encrypted :: "string \<Rightarrow> 'h world \<Rightarrow> bool" where
  "room_encrypted rid w = (case map_of (rooms (cl w)) rid of None \<Rightarrow> False | Some r \<Rightarrow> encrypted r)"

text \<open>Lines 709-747: the body of the loop over the joined rooms.\<close>

definition sync_state_events :: "'h ext \<Rightarrow> string \<Rightarrow> json \<Rightarrow> 'h stmt" where
  "sync_state_events ext rid sync_room =
     lookup (bind_e (bind_e (getitem sync_room ''state'') (\<lambda>s. getitem s ''events'')) iter)
       (\<lambda>events. foreach events (\<lambda>event.
          lookup (setitem event ''room_id'' (JStr rid))
            (\<lambda>event'. total (invoke ext (ProcessStateEvent rid event')))))"

text \<open>Lines 727-732: the fan-out of one timeline event to the global listeners.\<close>

definition global_dispatch :: "'h ext \<Rightarrow> json \<Rightarrow> 'h stmt" where
  "global_dispatch ext event =
     for_live (\<lambda>w. listeners (cl w)) (dispatch ext ListenerCallback event) 0"

definition sync_timeline_events :: "'h ext \<Rightarrow> string \<Rightarrow> json \<Rightarrow> 'h stmt" where
  "sync_timeline_events ext rid sync_room =
     lookup (bind_e (bind_e (getitem sync_room ''timeline'') (\<lambda>s. getitem s ''events'')) iter)
       (\<lambda>events. foreach events (\<lambda>event.
          lookup (setitem event ''room_id'' (JStr rid))
            (\<lambda>event'. seq (total (invoke ext (PutEvent rid event')))
                          (global_dispatch ext event'))))"

definition sync_ephemeral_events :: "'h ext \<Rightarrow> string \<Rightarrow> json \<Rightarrow> 'h stmt" where
  "sync_ephemeral_events ext rid sync_room =
     lookup (bind_e (bind_e (getitem sync_room ''ephemeral'') (\<lambda>s. getitem s ''events'')) iter)
       (\<lambda>events. foreach events (\<lambda>event.
          lookup (setitem event ''room_id'' (JStr rid))
            (\<lambda>event'. seq (total (invoke ext (PutEphemeralEvent rid event')))
                          (for_live (\<lambda>w. ephemeral_listeners (cl w))
                             (dispatch ext EphemeralCallback event') 0))))"

definition sync_joined_room :: "'h ext \<Rightarrow> string \<Rightarrow> json \<Rightarrow> 'h stmt" where
  "sync_joined_room ext rid sync_room =
     seq (\<lambda>w. if rid \<notin> set (map fst (rooms (cl w))) then Some (mkroom ext rid w) else ok w)
    (seq (lookup (bind_e (getitem sync_room ''timeline'') (\<lambda>t. getitem t ''prev_batch''))
            (\<lambda>pb w. Some (None, set_prev_batch rid pb w)))
    (seq (sync_state_events ext rid sync_room)
    (seq (sync_timeline_events ext rid sync_room)
    (seq (\<lambda>w. if encryption (cl w) \<and> room_encrypted rid w
               then Some (invoke ext TrackPendingUsers w) else ok w)
         (sync_ephemeral_events ext rid sync_room)))))"

definition sync_join :: "'h ext \<Rightarrow> json \<Rightarrow> 'h stmt" where
  "sync_join ext response =
     lookup (bind_e (bind_e (getitem response ''rooms'') (\<lambda>r. getitem r ''join'')) items)
       (\<lambda>joins. foreach joins (\<lambda>(rid, sync_room). sync_joined_room ext rid sync_room))"

text \<open>Lines 666-747: everything \<^verbatim>\<open>_sync\<close> does with the response.\<close>

definition reconcile :: "'h ext \<Rightarrow> json \<Rightarrow> 'h stmt" where
  "reconcile ext response =
     seq (sync_device_lists ext response)
    (seq (sync_set_token response)
    (seq (sync_first ext)
    (seq (sync_presence ext response)
    (seq (sync_invite ext response)
    (seq (sync_leave ext response)
    (seq (sync_to_device ext response)
    (seq (sync_one_time_keys ext response)
         (sync_join ext response))))))))"

definition sync :: "'h ext \<Rightarrow> int \<Rightarrow> 'h stmt" where
  "sync ext timeout_ms w =
     (case call ext (ApiSync (sync_token (cl w)) timeout_ms (sync_filter (cl w))) w of
        (Inl e, w1) \<Rightarrow> Some (Some e, w1)
      | (Inr response, w1) \<Rightarrow> reconcile ext response w1)"

section \<open>\<^verbatim>\<open>MatrixClient.listen_forever\<close>\<close>

text \<open>What one round of the \<^verbatim>\<open>while\<close> loop decides after \<^verbatim>\<open>_sync\<close> has ended: go on with
  a value of \<^verbatim>\<open>_bad_sync_timeout\<close>, or leave the loop with an exception. \<^verbatim>\<open>time.sleep\<close>
  raises ValueError for a negative duration; raised inside the \<^verbatim>\<open>except\<close> clause, the
  error leaves the loop.\<close>

datatype 'h round = Continue int "'h world" | Propagate error "'h world"

definition handle_exception :: "'h ext \<Rightarrow> callback option \<Rightarrow> error \<Rightarrow> int \<Rightarrow> 'h world \<Rightarrow> 'h round" where
  "handle_exception ext exception_handler e cur w =
     (case exception_handler of
        None \<Rightarrow> Propagate e w
      | Some h \<Rightarrow>
          (case invoke ext (ExceptionHandler h e) w of
             (Some e', w') \<Rightarrow> Propagate e' w'
           | (None, w') \<Rightarrow> Continue cur w'))"

fun after_sync :: "'h ext \<Rightarrow> callback option \<Rightarrow> int \<Rightarrow> int \<Rightarrow> 'h result \<Rightarrow> 'h round" where
  "after_sync ext exception_handler bad_sync_timeout cur (None, w) = Continue bad_sync_timeout w"
| "after_sync ext exception_handler bad_sync_timeout cur (Some (MatrixRequestError code), w) =
     (if code \<ge> 500 then
        (let w1 = emit (Sleep bad_sync_timeout) w
         in if bad_sync_timeout < 0 then Propagate ValueError w1
            else Continue (min (cur * 2) (bad_sync_timeout_limit (cl w1))) w1)
      else handle_exception ext exception_handler (MatrixRequestError code) cur w)"
| "after_sync ext exception_handler bad_sync_timeout cur (Some e, w) =
     handle_exception ext exception_handler e cur w"

partial_function (option) listen_loop ::
  "'h ext \<Rightarrow> int \<Rightarrow> callback option \<Rightarrow> int \<Rightarrow> int \<Rightarrow> 'h world \<Rightarrow> 'h result option"
where
  "listen_loop ext timeout_ms exception_handler bad_sync_timeout cur w =
     (if should_listen (cl w) then
        (case sync ext timeout_ms w of
           None \<Rightarrow> None
         | Some r \<Rightarrow>
             (case after_sync ext exception_handler bad_sync_timeout cur r of
                Continue cur' w' \<Rightarrow>
                  listen_loop ext timeout_ms exception_handler bad_sync_timeout cur' w'
              | Propagate e w' \<Rightarrow> Some (Some e, w')))
      else Some (None, w))"

declare listen_loop.simps [code]

definition listen_forever :: "'h ext \<Rightarrow> int \<Rightarrow> callback option \<Rightarrow> int \<Rightarrow> 'h stmt" where
  "listen_forever ext timeout_ms exception_handler bad_sync_timeout w =
     listen_loop ext timeout_ms exception_handler bad_sync_timeout bad_sync_timeout
       (w\<lparr>cl := (cl w)\<lparr>should_listen := True\<rparr>\<rparr>)"

section \<open>\<^verbatim>\<open>MatrixClient.start_listener_thread\<close>\<close>

text \<open>
  A \<^verbatim>\<open>Thread\<close> object holds its target's arguments and whether it is a daemon and has
  been started; the process holds the thread objects made so far, and
  \<^verbatim>\<open>self.sync_thread\<close> refers to one of them by position. Whether the operating system
  grants a new thread is an input: \<^verbatim>\<open>thread.start()\<close> raises RuntimeError when it does
  not, which the method catches and logs.
\<close>

record thread =
  target_args :: "int \<times> callback option"
  daemon :: bool
  started :: bool

record process =
  client_of :: client
  threads :: "thread list"

definition start_listener_thread :: "bool \<Rightarrow> int \<Rightarrow> callback option \<Rightarrow> process \<Rightarrow> process" where
  "start_listener_thread granted timeout_ms exception_handler p =
     (let t = \<lparr>target_args = (timeout_ms, exception_handler), daemon = True, started = False\<rparr>;
          c = (client_of p)\<lparr>sync_thread := Some (length (threads p)), should_listen := True\<rparr>
      in \<lparr>client_of = c, threads = threads p @ [if granted then t\<lparr>started := True\<rparr> else t]\<rparr>)"

definition workers :: "process \<Rightarrow> nat" where
  "workers p = length (filter started (threads p))"

section \<open>Runs in a well-behaved environment\<close>

text \<open>
  An environment is benign when no call raises and no call changes the client: the
  callees only read what they are handed and keep their effects to their own state.
\<close>

definition benign :: "'h ext \<Rightarrow> bool" where
  "benign ext = (\<forall>a c h. \<exists>v h'. ext a (c, h) = (Inr v, c, h'))"

text \<open>The steps of a run that the specification names; the bookkeeping assignments
  \<open>SetRoom\<close> and \<open>SetPrevBatch\<close> are not among them.\<close>

definition visible :: "action \<Rightarrow> bool" where
  "visible a = (case a of SetRoom rid \<Rightarrow> False | SetPrevBatch rid pb \<Rightarrow> False | _ \<Rightarrow> True)"

text \<open>\<open>yields s w c tr\<close>: from \<open>w\<close> the statement \<open>s\<close> ends normally, in the client
  \<open>c\<close>, and the named steps it has added to the trace are \<open>tr\<close>.\<close>

definition yields :: "'h stmt \<Rightarrow> 'h world \<Rightarrow> client \<Rightarrow> action list \<Rightarrow> bool" where
  "yields s w c tr =
     (\<exists>w' tr0. s w = Some (None, w') \<and> cl w' = c \<and> trace w' = trace w @ tr0 \<and> filter visible tr0 = tr)"

text \<open>\<open>raises s w e c tr\<close>: from \<open>w\<close> the statement \<open>s\<close> ends with the exception \<open>e\<close>,
  in the client \<open>c\<close>, and the named steps it has added to the trace are \<open>tr\<close>.\<close>

definition raises :: "'h stmt \<Rightarrow> 'h world \<Rightarrow> error \<Rightarrow> client \<Rightarrow> action list \<Rightarrow> bool" where
  "raises s w e c tr =
     (\<exists>w' tr0. s w = Some (Some e, w') \<and> cl w' = c \<and> trace w' = trace w @ tr0 \<and> filter visible tr0 = tr)"

text \<open>Threading the client through a list of steps, collecting their traces.\<close>

primrec steps :: "('a \<Rightarrow> client \<Rightarrow> client \<times> action list) \<Rightarrow> 'a list \<Rightarrow> client \<Rightarrow> client \<times> action list" where
  "steps f [] c = (c, [])"
| "steps f (x # xs) c = (case f x c of (c1, t1) \<Rightarrow> (case steps f xs c1 of (c2, t2) \<Rightarrow> (c2, t1 @ t2)))"


section \<open>The parts of a batch\<close>

text \<open>The sections of a reply as \<^verbatim>\<open>_sync\<close> reaches them, and the reading of a reply
  that has them all (\<open>wf_batch\<close>); a section that is missing reads as empty.\<close>

definition events_of :: "json \<Rightarrow> string \<Rightarrow> error + json list" where
  "events_of j k = bind_e (bind_e (getitem j k) (\<lambda>s. getitem s ''events'')) iter"

definition rooms_section :: "json \<Rightarrow> string \<Rightarrow> error + (string \<times> json) list" where
  "rooms_section response k = bind_e (bind_e (getitem response ''rooms'') (\<lambda>r. getitem r k)) items"

definition batch_token :: "json \<Rightarrow> json" where
  "batch_token response = (case getitem response ''next_batch'' of Inr t \<Rightarrow> t | Inl e \<Rightarrow> JNull)"

definition batch_presence :: "json \<Rightarrow> json list" where
  "batch_presence response = (case events_of response ''presence'' of Inr xs \<Rightarrow> xs | Inl e \<Rightarrow> [])"

definition batch_rooms :: "json \<Rightarrow> string \<Rightarrow> (string \<times> json) list" where
  "batch_rooms response k = (case rooms_section response k of Inr kvs \<Rightarrow> kvs | Inl e \<Rightarrow> [])"

definition room_events :: "json \<Rightarrow> string \<Rightarrow> json list" where
  "room_events sr k = (case events_of sr k of Inr xs \<Rightarrow> xs | Inl e \<Rightarrow> [])"

definition invite_state :: "json \<Rightarrow> json" where
  "invite_state ir = (case getitem ir ''invite_state'' of Inr s \<Rightarrow> s | Inl e \<Rightarrow> JNull)"

definition cursor :: "json \<Rightarrow> json" where
  "cursor sr = (case bind_e (getitem sr ''timeline'') (\<lambda>t. getitem t ''prev_batch'') of
                  Inr pb \<Rightarrow> pb | Inl e \<Rightarrow> JNull)"

definition tagged :: "string \<Rightarrow> json \<Rightarrow> json" where
  "tagged rid e = (case setitem e ''room_id'' (JStr rid) of Inr e' \<Rightarrow> e' | Inl x \<Rightarrow> e)"

fun is_dict :: "json \<Rightarrow> bool" where
  "is_dict (JObj kvs) = True"
| "is_dict _ = False"

definition has_type :: "json \<Rightarrow> bool" where
  "has_type e = (\<not> isl (getitem e ''type''))"

definition wf_joined :: "json \<Rightarrow> bool" where
  "wf_joined sr =
     (\<not> isl (bind_e (getitem sr ''timeline'') (\<lambda>t. getitem t ''prev_batch'')) \<and>
      \<not> isl (events_of sr ''state'') \<and> \<not> isl (events_of sr ''timeline'') \<and>
      \<not> isl (events_of sr ''ephemeral'') \<and>
      list_all is_dict (room_events sr ''state'') \<and>
      list_all has_type (room_events sr ''timeline'') \<and>
      list_all has_type (room_events sr ''ephemeral''))"

definition wf_batch :: "json \<Rightarrow> bool" where
  "wf_batch response =
     (\<not> isl (getitem response ''next_batch'') \<and>
      \<not> isl (events_of response ''presence'') \<and>
      \<not> isl (rooms_section response ''invite'') \<and>
      \<not> isl (rooms_section response ''leave'') \<and>
      \<not> isl (rooms_section response ''join'') \<and>
      list_all (\<lambda>kv. \<not> isl (getitem (snd kv) ''invite_state'')) (batch_rooms response ''invite'') \<and>
      list_all (\<lambda>kv. wf_joined (snd kv)) (batch_rooms response ''join'') \<and>
      (contains response ''to_device'' = Inr True \<longrightarrow> \<not> isl (events_of response ''to_device'')))"

section \<open>Reconciliation as the specification words it\<close>

text \<open>
  The filter of a listener is absent or an event type, matched exactly. A fan-out
  invokes, in registration order, the listeners whose filter accepts the event.
\<close>

definition accepts :: "listener \<Rightarrow> json \<Rightarrow> bool" where
  "accepts l e = (case event_type l of None \<Rightarrow> True | Some t \<Rightarrow> getitem e ''type'' = Inr (JStr t))"

definition spec_fan_out :: "(uid \<Rightarrow> callback \<Rightarrow> json \<Rightarrow> action) \<Rightarrow> listener list \<Rightarrow> json \<Rightarrow> action list" where
  "spec_fan_out mk ls e = map (\<lambda>l. mk (uid l) (callback l) e) (filter (\<lambda>l. accepts l e) ls)"

text \<open>Steps 2 and 3: every presence update goes to every presence listener, every
  invite to every invite listener with the invite state.\<close>

definition spec_presence :: "client \<Rightarrow> json \<Rightarrow> action list" where
  "spec_presence c response =
     concat (map (\<lambda>u. map (\<lambda>cb. PresenceCallback cb u) (map snd (presence_listeners c)))
               (batch_presence response))"

definition spec_invite :: "client \<Rightarrow> json \<Rightarrow> action list" where
  "spec_invite c response =
     concat (map (\<lambda>kv. map (\<lambda>cb. InviteListener cb (fst kv) (invite_state (snd kv))) (invite_listeners c))
               (batch_rooms response ''invite''))"

text \<open>Step 4, for one left room: the leave listeners are invoked with the room of the
  batch, then the room is dropped from the active set (nothing happens to an absent
  room).\<close>

definition spec_leave_room :: "string \<times> json \<Rightarrow> client \<Rightarrow> client \<times> action list" where
  "spec_leave_room kv c =
     (c\<lparr>rooms := filter (\<lambda>p. fst p \<noteq> fst kv) (rooms c)\<rparr>,
      map (\<lambda>cb. LeftListener cb (fst kv) (snd kv)) (left_listeners c) @ [DropRoom (fst kv)])"

text \<open>Step 5, for one joined room: the room is created if it is new and gets the
  pagination cursor of the batch; the state events are applied in listed order; every
  timeline event is appended and fanned out to the global listeners, every ephemeral
  event is appended and fanned out to the ephemeral listeners.\<close>

definition spec_join_room :: "string \<times> json \<Rightarrow> client \<Rightarrow> client \<times> action list" where
  "spec_join_room kv c =
     (let rid = fst kv; sr = snd kv;
          known = (rid \<in> set (map fst (rooms c)));
          rs = (if known then rooms c
                else rooms c @ [(rid, \<lparr>room_id = rid, prev_batch = JNull, encrypted = False\<rparr>)])
      in (c\<lparr>rooms := AList.map_entry rid (\<lambda>r. r\<lparr>prev_batch := cursor sr\<rparr>) rs\<rparr>,
          (if known then [] else [NewRoom rid (verify_devices c)])
          @ map (\<lambda>e. ProcessStateEvent rid (tagged rid e)) (room_events sr ''state'')
          @ concat (map (\<lambda>e. PutEvent rid (tagged rid e)
                             # spec_fan_out ListenerCallback (listeners c) (tagged rid e))
                      (room_events sr ''timeline''))
          @ concat (map (\<lambda>e. PutEphemeralEvent rid (tagged rid e)
                             # spec_fan_out EphemeralCallback (ephemeral_listeners c) (tagged rid e))
                      (room_events sr ''ephemeral''))))"

text \<open>The five steps in the order of the specification: token, presence, invites,
  left rooms, joined rooms.\<close>

definition spec_reconcile :: "json \<Rightarrow> client \<Rightarrow> client \<times> action list" where
  "spec_reconcile response c =
     (let c1 = c\<lparr>sync_token := batch_token response\<rparr>;
          l = steps spec_leave_room (batch_rooms response ''leave'') c1;
          j = steps spec_join_room (batch_rooms response ''join'') (fst l)
      in (fst j,
          [SetSyncToken (batch_token response)] @ spec_presence c1 response
          @ spec_invite c1 response @ snd l @ snd j))"

section \<open>Registration order\<close>

text \<open>
  A registration is one call \<^verbatim>\<open>add_listener(callback, event_type)\<close> together with the
  id that \<^verbatim>\<open>uuid4()\<close> drew for it. \<open>registered regs c\<close> is the client after the calls
  of \<open>regs\<close>, made in listed order on the client \<open>c\<close>.
\<close>

type_synonym registration = "uid \<times> callback \<times> string option"

primrec registered :: "registration list \<Rightarrow> client \<Rightarrow> client" where
  "registered [] c = c"
| "registered (r # rs) c =
     registered rs (snd (add_listener (fst r) (fst (snd r)) (snd (snd r)) c))"


section \<open>Observations on a trace\<close>

fun global_calls :: "action \<Rightarrow> bool" where
  "global_calls (ListenerCallback u cb e) = True"
| "global_calls _ = False"

fun leave_steps :: "action \<Rightarrow> bool" where
  "leave_steps (LeftListener cb rid lr) = True"
| "leave_steps (DropRoom rid) = True"
| "leave_steps _ = False"

text \<open>The steps that come before the first use of the \<^verbatim>\<open>rooms\<close> section of a reply.\<close>

fun before_rooms :: "action \<Rightarrow> bool" where
  "before_rooms (UpdateUserDeviceKeys changed tok) = True"
| "before_rooms (StopTrackingUsers left) = True"
| "before_rooms (SetSyncToken tok) = True"
| "before_rooms (UpdateAfterRestart tok) = True"
| "before_rooms (PresenceCallback cb u) = True"
| "before_rooms _ = False"

text \<open>The event that a call hands to room processing or to a listener, and the calls
  that hand one over.\<close>

fun event_of :: "action \<Rightarrow> json option" where
  "event_of (ProcessStateEvent rid e) = Some e"
| "event_of (PutEvent rid e) = Some e"
| "event_of (ListenerCallback u cb e) = Some e"
| "event_of (PutEphemeralEvent rid e) = Some e"
| "event_of (EphemeralCallback u cb e) = Some e"
| "event_of _ = None"

definition hands_event :: "action \<Rightarrow> bool" where
  "hands_event a = (event_of a \<noteq> None)"

definition carries_room :: "string \<Rightarrow> action \<Rightarrow> bool" where
  "carries_room rid a =
     (case event_of a of None \<Rightarrow> False | Some e \<Rightarrow> getitem e ''room_id'' = Inr (JStr rid))"


text \<open>\<open>grows P w w'\<close>: the trace of \<open>w'\<close> extends the trace of \<open>w\<close> by steps that all
  satisfy \<open>P\<close>. A statement keeps to \<open>P\<close> when every run of it that ends grows the trace
  so; it finishes within \<open>P\<close> when, besides, every run ends.\<close>

definition grows :: "(action \<Rightarrow> bool) \<Rightarrow> 'h world \<Rightarrow> 'h world \<Rightarrow> bool" where
  "grows P w w' = (\<exists>tr. trace w' = trace w @ tr \<and> list_all P tr)"

definition keeps_to :: "(action \<Rightarrow> bool) \<Rightarrow> 'h stmt \<Rightarrow> bool" where
  "keeps_to P s = (\<forall>w r w'. s w = Some (r, w') \<longrightarrow> grows P w w')"

definition finishes :: "(action \<Rightarrow> bool) \<Rightarrow> 'h stmt \<Rightarrow> bool" where
  "finishes P s = (\<forall>w. \<exists>r w'. s w = Some (r, w') \<and> grows P w w')"

text \<open>A statement aborts within \<open>P\<close> when every run of it ends with an exception and
  has grown the trace by steps that satisfy \<open>P\<close>.\<close>

definition aborts :: "(action \<Rightarrow> bool) \<Rightarrow> 'h stmt \<Rightarrow> bool" where
  "aborts P s = (\<forall>w. \<exists>e w'. s w = Some (Some e, w') \<and> grows P w w')"

text \<open>
  \<open>prune_after u R ls\<close> is the list \<open>ls\<close> without the listeners that come after the
  listener \<open>u\<close> and have their uid in \<open>R\<close>; \<open>pruned ls0 ls\<close> says that \<open>ls\<close> is \<open>ls0\<close>
  without the listeners of some uids. An environment removes later listeners only,
  relative to the list \<open>ls0\<close> at the start of a fan-out, when no global callback
  raises and the callback of the listener \<open>u\<close>, run on a list pruned from \<open>ls0\<close> that
  holds \<open>u\<close>, leaves that list pruned after \<open>u\<close>.
\<close>

fun prune_after :: "uid \<Rightarrow> uid set \<Rightarrow> listener list \<Rightarrow> listener list" where
  "prune_after u R [] = []"
| "prune_after u R (l # ls) =
     (if uid l = u then l # filter (\<lambda>x. uid x \<notin> R) ls else l # prune_after u R ls)"

definition pruned :: "listener list \<Rightarrow> listener list \<Rightarrow> bool" where
  "pruned ls0 ls = (\<exists>R. ls = filter (\<lambda>l. uid l \<notin> R) ls0)"

definition removes_later_only :: "'h ext \<Rightarrow> listener list \<Rightarrow> bool" where
  "removes_later_only ext ls0 =
     (\<forall>u cb e c h. \<exists>v c' h'.
        ext (ListenerCallback u cb e) (c, h) = (Inr v, c', h') \<and>
        (pruned ls0 (listeners c) \<and> u \<in> uid ` set (listeners c) \<longrightarrow>
           (\<exists>R. listeners c' = prune_after u R (listeners c))))"


section \<open>Concrete clients, replies and environments\<close>

definition idle_client :: client where
  "idle_client = init_client ''{ \"room\": { \"timeline\" : { \"limit\" : 20 } } }''"

definition idle_process :: process where
  "idle_process = \<lparr>client_of = idle_client, threads = []\<rparr>"

text \<open>The durations of the \<^verbatim>\<open>sleep\<close> calls of a run, in order.\<close>

fun sleep_of :: "action \<Rightarrow> int list" where
  "sleep_of (Sleep d) = [d]"
| "sleep_of _ = []"

definition sleeps :: "action list \<Rightarrow> int list" where
  "sleeps tr = concat (map sleep_of tr)"

text \<open>A server that answers the first three \<^verbatim>\<open>/sync\<close> requests with status 500 and the
  fourth with status 401; its own state counts the requests.\<close>

fun failing_server :: "nat ext" where
  "failing_server (ApiSync tok t f) (c, n) =
     (if n < 3 then (Inl (MatrixRequestError 500), c, Suc n)
      else (Inl (MatrixRequestError 401), c, Suc n))"
| "failing_server a (c, n) = (Inr JNull, c, n)"

definition backoff_world :: "nat world" where
  "backoff_world = \<lparr>cl = idle_client\<lparr>bad_sync_timeout_limit := 60\<rparr>, hid = 0, trace = []\<rparr>"

text \<open>A server that answers every \<^verbatim>\<open>/sync\<close> request with the same reply, among callees
  that do nothing.\<close>

fun reply_server :: "json \<Rightarrow> unit ext" where
  "reply_server reply (ApiSync tok t f) s = (Inr reply, s)"
| "reply_server reply a s = (Inr JNull, s)"

definition event_a :: json where
  "event_a = JObj [(''type'', JStr ''A''), (''event_id'', JStr ''$1'')]"

definition event_b :: json where
  "event_b = JObj [(''type'', JStr ''B''), (''event_id'', JStr ''$2'')]"

definition typing_event :: json where
  "typing_event = JObj [(''type'', JStr ''m.typing'')]"

definition name_event :: json where
  "name_event = JObj [(''type'', JStr ''m.room.name''), (''state_key'', JStr [])]"

definition presence_event :: json where
  "presence_event = JObj [(''type'', JStr ''m.presence'')]"

text \<open>The section of a joined room with a state event, the timeline events of type A
  and B, and a typing event.\<close>

definition full_room :: json where
  "full_room =
     JObj [(''timeline'', JObj [(''prev_batch'', JStr ''p1''),
                               (''events'', JArr [event_a, event_b])]),
           (''state'', JObj [(''events'', JArr [name_event])]),
           (''ephemeral'', JObj [(''events'', JArr [typing_event])])]"

text \<open>A batch with one presence update, one invite, two left rooms and that joined
  room.\<close>

definition full_reply :: json where
  "full_reply =
     JObj [(''next_batch'', JStr ''s2''),
           (''presence'', JObj [(''events'', JArr [presence_event])]),
           (''rooms'', JObj
              [(''invite'', JObj [(''!inv'', JObj [(''invite_state'', JObj [(''events'', JArr [])])])]),
               (''leave'', JObj [(''!old'', JObj []), (''!gone'', JObj [])]),
               (''join'', JObj [(''!r1'', full_room)])])]"

text \<open>A client after a first sync (token \<open>s1\<close>), in the room \<open>!old\<close>, with the global
  listeners L1 (filter A) and L2 (no filter) registered in that order and one
  listener in each other registry.\<close>

definition busy_client :: client where
  "busy_client =
     idle_client\<lparr>
       listeners := [\<lparr>uid = 1, callback = 10, event_type = Some ''A''\<rparr>,
                     \<lparr>uid = 2, callback = 20, event_type = None\<rparr>],
       presence_listeners := [(3, 30)],
       invite_listeners := [40],
       left_listeners := [50],
       ephemeral_listeners := [\<lparr>uid = 6, callback = 60, event_type = None\<rparr>],
       sync_token := JStr ''s1'',
       rooms := [(''!old'', \<lparr>room_id = ''!old'', prev_batch = JStr ''p0'', encrypted = False\<rparr>)]\<rparr>"

definition busy_world :: "unit world" where
  "busy_world = \<lparr>cl = busy_client, hid = (), trace = []\<rparr>"



text \<open>A batch without the \<^verbatim>\<open>rooms\<close> section.\<close>

definition reply_without_rooms :: json where
  "reply_without_rooms =
     JObj [(''next_batch'', JStr ''s2''),
           (''presence'', JObj [(''events'', JArr [presence_event])])]"


text \<open>A server with a fixed reply, among callees of which the callback 10 removes the
  listener with uid 1, the one it is registered under in the client below.\<close>

fun self_removing :: "json \<Rightarrow> unit ext" where
  "self_removing reply (ApiSync tok t f) s = (Inr reply, s)"
| "self_removing reply (ListenerCallback u cb e) (c, h) =
     (if cb = 10 then (Inr JNull, remove_listener 1 c, h) else (Inr JNull, c, h))"
| "self_removing reply a s = (Inr JNull, s)"

text \<open>Callees of which the callback of the listener 1 removes the listener 3.\<close>

fun later_removing :: "unit ext" where
  "later_removing (ListenerCallback u cb e) (c, h) =
     (if u = 1 then (Inr JNull, remove_listener 3 c, h) else (Inr JNull, c, h))"
| "later_removing a s = (Inr JNull, s)"

definition three_listeners :: "listener list" where
  "three_listeners = [\<lparr>uid = 1, callback = 10, event_type = None\<rparr>,
                      \<lparr>uid = 2, callback = 20, event_type = Some ''A''\<rparr>,
                      \<lparr>uid = 3, callback = 30, event_type = None\<rparr>]"

definition three_world :: "unit world" where
  "three_world = \<lparr>cl = idle_client\<lparr>listeners := three_listeners\<rparr>, hid = (), trace = []\<rparr>"

definition unfiltered_client :: client where
  "unfiltered_client =
     snd (add_listener 2 20 None (snd (add_listener 1 10 None idle_client)))"

definition unfiltered_world :: "unit world" where
  "unfiltered_world = \<lparr>cl = unfiltered_client, hid = (), trace = []\<rparr>"

text \<open>The joined-room section of a batch with one timeline event.\<close>

definition one_event_room :: json where
  "one_event_room =
     JObj [(''timeline'', JObj [(''prev_batch'', JStr ''p1''), (''events'', JArr [event_a])]),
           (''state'', JObj [(''events'', JArr [])]),
           (''ephemeral'', JObj [(''events'', JArr [])])]"

text \<open>A batch whose only content is that joined room.\<close>

definition one_event_reply :: json where
  "one_event_reply =
     JObj [(''next_batch'', JStr ''s2''),
           (''presence'', JObj [(''events'', JArr [])]),
           (''rooms'', JObj
              [(''invite'', JObj []), (''leave'', JObj []),
               (''join'', JObj [(''!r1'', one_event_room)])])]"

text \<open>What a run has come to: how it ended, the rooms of the active set, the trace.\<close>

definition outcome :: "'h result option \<Rightarrow> error option option" where
  "outcome r = map_option fst r"


definition final_token :: "'h result option \<Rightarrow> json option" where
  "final_token r = map_option (\<lambda>x. sync_token (cl (snd x))) r"

definition final_trace :: "'h result option \<Rightarrow> action list option" where
  "final_trace r = map_option (\<lambda>x. trace (snd x)) r"

definition final_listeners :: "'h result option \<Rightarrow> listener list option" where
  "final_listeners r = map_option (\<lambda>x. listeners (cl (snd x))) r"

lemma benign_call: "benign ext \<Longrightarrow> \<exists>v h'. call ext a w = (Inr v, \<lparr>cl = cl w, hid = h', trace = trace w @ [a]\<rparr>)"
  unfolding benign_def call_def
proof -
  assume b: "\<forall>a c h. \<exists>v h'. ext a (c, h) = (Inr v, c, h')"
  then obtain v h' where "ext a (cl w, hid w) = (Inr v, cl w, h')" by blast
  then show "\<exists>v h'. (case ext a (cl w, hid w) of (r, c, h) \<Rightarrow> (r, \<lparr>cl = c, hid = h, trace = trace w @ [a]\<rparr>))
      = (Inr v, \<lparr>cl = cl w, hid = h', trace = trace w @ [a]\<rparr>)" by simp
qed

lemma benign_invoke: "benign ext \<Longrightarrow> \<exists>h'. invoke ext a w = (None, \<lparr>cl = cl w, hid = h', trace = trace w @ [a]\<rparr>)"
  using benign_call [of ext a w] by (auto simp: invoke_def)

lemma yields_ok: "yields ok w (cl w) []"
  by (simp add: yields_def ok_def)

lemma yields_seq:
  assumes "yields a w c1 tr1" and "\<And>w1. cl w1 = c1 \<Longrightarrow> yields b w1 c2 tr2"
  shows "yields (seq a b) w c2 (tr1 @ tr2)"
proof -
  from assms(1) obtain w1 t1 where a: "a w = Some (None, w1)" "cl w1 = c1" "trace w1 = trace w @ t1" "filter visible t1 = tr1"
    by (auto simp: yields_def)
  from assms(2) [OF a(2)] obtain w2 t2 where b: "b w1 = Some (None, w2)" "cl w2 = c2" "trace w2 = trace w1 @ t2" "filter visible t2 = tr2"
    by (auto simp: yields_def)
  have "seq a b w = Some (None, w2)" using a(1) b(1) by (simp add: seq_def)
  moreover have "trace w2 = trace w @ (t1 @ t2)" using a(3) b(3) by simp
  moreover have "filter visible (t1 @ t2) = tr1 @ tr2" using a(4) b(4) by simp
  ultimately show ?thesis using b(2) unfolding yields_def by blast
qed

lemma yields_lookup: "x = Inr v \<Longrightarrow> yields (k v) w c tr \<Longrightarrow> yields (lookup x k) w c tr"
  by (simp add: yields_def lookup_def)

lemma yields_total_invoke: "benign ext \<Longrightarrow> visible a \<Longrightarrow> yields (total (invoke ext a)) w (cl w) [a]"
  using benign_invoke [of ext a w] by (auto simp: yields_def total_def)

lemma yields_foreach:
  assumes "\<And>x w. x \<in> set xs \<Longrightarrow> I (cl w) \<Longrightarrow> yields (body x) w (fst (f x (cl w))) (snd (f x (cl w)))"
    and "\<And>x c. x \<in> set xs \<Longrightarrow> I c \<Longrightarrow> I (fst (f x c))"
    and "I (cl w)"
  shows "yields (foreach xs body) w (fst (steps f xs (cl w))) (snd (steps f xs (cl w)))"
  using assms
proof (induction xs arbitrary: w)
  case Nil
  show ?case by (simp add: yields_ok)
next
  case (Cons x xs)
  have h: "yields (body x) w (fst (f x (cl w))) (snd (f x (cl w)))" using Cons.prems by simp
  have i: "I (fst (f x (cl w)))" using Cons.prems by simp
  have t: "\<And>w1. cl w1 = fst (f x (cl w)) \<Longrightarrow>
       yields (foreach xs body) w1 (fst (steps f xs (fst (f x (cl w))))) (snd (steps f xs (fst (f x (cl w)))))"
  proof -
    fix w1 :: "'b world"
    assume e: "cl w1 = fst (f x (cl w))"
    have "yields (foreach xs body) w1 (fst (steps f xs (cl w1))) (snd (steps f xs (cl w1)))"
      by (rule Cons.IH) (use Cons.prems i e in auto)
    then show "yields (foreach xs body) w1 (fst (steps f xs (fst (f x (cl w))))) (snd (steps f xs (fst (f x (cl w)))))"
      using e by simp
  qed
  show ?case using yields_seq [OF h t] by (simp add: split_beta)
qed

lemma for_live_done: "\<not> i < length (xs w) \<Longrightarrow> for_live xs body i w = Some (None, w)"
  by (subst for_live.simps) simp

lemma for_live_step: "i < length (xs w) \<Longrightarrow> for_live xs body i w =
   (case body (xs w ! i) w of (Some e, w') \<Rightarrow> Some (Some e, w') | (None, w') \<Rightarrow> for_live xs body (Suc i) w')"
  by (subst for_live.simps) simp

lemma for_live_invariant:
  assumes body: "\<And>x w. I w \<Longrightarrow> x \<in> set ls \<Longrightarrow>
            \<exists>w'. body x w = (None, w') \<and> I w' \<and> trace w' = trace w @ out x"
    and xs: "\<And>w. I w \<Longrightarrow> xs w = ls"
    and inv: "I w"
  shows "\<exists>w'. for_live xs body i w = Some (None, w') \<and> I w'
           \<and> trace w' = trace w @ concat (map out (drop i ls))"
  using inv
proof (induction "length ls - i" arbitrary: i w)
  case 0
  then have "\<not> i < length (xs w)" using xs by simp
  then have "for_live xs body i w = Some (None, w)" by (rule for_live_done)
  moreover have "drop i ls = []" using 0 by simp
  ultimately show ?case using 0 by simp
next
  case (Suc n)
  then have lt: "i < length ls" by simp
  then have mem: "ls ! i \<in> set ls" by simp
  from body [OF Suc.prems mem] obtain w1 where
    b: "body (ls ! i) w = (None, w1)" "I w1" "trace w1 = trace w @ out (ls ! i)" by blast
  have n: "n = length ls - Suc i" using Suc.hyps(2) by simp
  from Suc.hyps(1) [OF n b(2)] obtain w2 where
    r: "for_live xs body (Suc i) w1 = Some (None, w2)" "I w2"
       "trace w2 = trace w1 @ concat (map out (drop (Suc i) ls))"
    by blast
  have "for_live xs body i w = Some (None, w2)"
    using lt xs [OF Suc.prems] b(1) r(1) by (simp add: for_live_step)
  moreover have "drop i ls = ls ! i # drop (Suc i) ls" using lt by (simp add: Cons_nth_drop_Suc)
  ultimately show ?case using r(2) r(3) b(3) by simp
qed

lemma yields_for_live:
  assumes body: "\<And>x w. cl w = c \<Longrightarrow> x \<in> set (g c) \<Longrightarrow>
            \<exists>w'. body x w = (None, w') \<and> cl w' = c \<and> trace w' = trace w @ out x"
    and vis: "\<And>x a. x \<in> set (g c) \<Longrightarrow> a \<in> set (out x) \<Longrightarrow> visible a"
    and c: "cl w = c"
  shows "yields (for_live (\<lambda>w. g (cl w)) body i) w c (concat (map out (drop i (g c))))"
proof -
  from for_live_invariant [where I = "\<lambda>w. cl w = c" and ls = "g c" and xs = "\<lambda>w. g (cl w)"
        and body = body and out = out and w = w and i = i] body c
  obtain w' where r: "for_live (\<lambda>w. g (cl w)) body i w = Some (None, w')" "cl w' = c"
      "trace w' = trace w @ concat (map out (drop i (g c)))"
    by auto
  have "\<forall>a \<in> set (concat (map out (drop i (g c)))). visible a"
    using vis by (auto dest: in_set_dropD)
  then have "filter visible (concat (map out (drop i (g c)))) = concat (map out (drop i (g c)))"
    by (simp add: filter_id_conv)
  then show ?thesis using r unfolding yields_def by blast
qed

lemma steps_const: "steps (\<lambda>x c. (c, out c x)) xs c = (c, concat (map (out c) xs))"
  by (induction xs) auto

lemma yields_foreach_const:
  assumes "\<And>x w. x \<in> set xs \<Longrightarrow> yields (body x) w (cl w) (out (cl w) x)"
  shows "yields (foreach xs body) w (cl w) (concat (map (out (cl w)) xs))"
  using yields_foreach [where xs = xs and body = body and f = "\<lambda>x c. (c, out c x)" and w = w and I = "\<lambda>c. True"] assms
  by (simp add: steps_const)

lemma concat_map_if: "concat (map (\<lambda>x. if P x then [f x] else []) xs) = map f (filter P xs)"
  by (induction xs) auto

lemma delete_filter: "AList.delete k al = filter (\<lambda>p. fst p \<noteq> k) al"
  by (induction al) (auto simp: AList.delete_eq)

lemma update_append: "k \<notin> set (map fst al) \<Longrightarrow> AList.update k v al = al @ [(k, v)]"
  by (induction al) auto

lemma setitem_tagged: "is_dict e \<Longrightarrow> setitem e ''room_id'' (JStr rid) = Inr (tagged rid e)"
  by (cases e) (simp_all add: tagged_def)

lemma has_type_dict: "has_type e \<Longrightarrow> is_dict e"
  by (cases e) (simp_all add: has_type_def)

lemma getitem_tagged_type: "is_dict e \<Longrightarrow> getitem (tagged rid e) ''type'' = getitem e ''type''"
  by (cases e) (simp_all add: tagged_def update_conv')

lemma has_type_tagged: "has_type e \<Longrightarrow> has_type (tagged rid e)"
  using getitem_tagged_type [OF has_type_dict] by (simp add: has_type_def)


lemma dispatch_benign:
  assumes "benign ext" and "has_type e"
  shows "\<exists>w'. dispatch ext mk e l w = (None, w') \<and> cl w' = cl w
           \<and> trace w' = trace w @ (if accepts l e then [mk (uid l) (callback l) e] else [])"
proof -
  from assms(2) obtain v where v: "getitem e ''type'' = Inr v"
    by (cases "getitem e ''type''") (simp_all add: has_type_def)
  from benign_invoke [OF assms(1), of "mk (uid l) (callback l) e" w] obtain h' where
    i: "invoke ext (mk (uid l) (callback l) e) w = (None, \<lparr>cl = cl w, hid = h', trace = trace w @ [mk (uid l) (callback l) e]\<rparr>)"
    by blast
  show ?thesis
  proof (cases "event_type l")
    case None
    then show ?thesis using i by (simp add: dispatch_def accepts_def)
  next
    case (Some t)
    then show ?thesis using i v by (simp add: dispatch_def accepts_def)
  qed
qed

lemma visible_simps:
  "visible (ListenerCallback u cb e)" "visible (EphemeralCallback u cb e)"
  "visible (PutEvent rid e)" "visible (PutEphemeralEvent rid e)" "visible (ProcessStateEvent rid e)"
  "visible (NewRoom rid b)" "visible (DropRoom rid)" "visible (LeftListener cb rid e)"
  "visible (InviteListener cb rid e)" "visible (PresenceCallback cb e)" "visible (SetSyncToken e)"
  "\<not> visible (SetRoom rid)" "\<not> visible (SetPrevBatch rid e)"
  by (simp_all add: visible_def)

lemma yields_fan_out:
  assumes "benign ext" and "has_type e" and "\<And>u cb. visible (mk u cb e)"
  shows "yields (for_live (\<lambda>w. g (cl w)) (dispatch ext mk e) 0) w (cl w) (spec_fan_out mk (g (cl w)) e)"
proof -
  have "yields (for_live (\<lambda>w. g (cl w)) (dispatch ext mk e) 0) w (cl w)
          (concat (map (\<lambda>l. if accepts l e then [mk (uid l) (callback l) e] else []) (drop 0 (g (cl w)))))"
  proof (rule yields_for_live)
    fix x and w' :: "'a world"
    assume "cl w' = cl w"
    then show "\<exists>w'a. dispatch ext mk e x w' = (None, w'a) \<and> cl w'a = cl w \<and>
                 trace w'a = trace w' @ (if accepts x e then [mk (uid x) (callback x) e] else [])"
      using dispatch_benign [OF assms(1,2), of mk x w'] by simp
  next
    fix x a
    assume "a \<in> set (if accepts x e then [mk (uid x) (callback x) e] else [])"
    then show "visible a" using assms(3) by (auto split: if_splits)
  qed simp
  then show ?thesis by (simp add: concat_map_if spec_fan_out_def)
qed

lemma yields_state_events:
  assumes "benign ext" and "events_of sr ''state'' = Inr es" and "list_all is_dict es"
  shows "yields (sync_state_events ext rid sr) w (cl w) (map (\<lambda>e. ProcessStateEvent rid (tagged rid e)) es)"
proof -
  have "yields (foreach es (\<lambda>event. lookup (setitem event ''room_id'' (JStr rid))
            (\<lambda>event'. total (invoke ext (ProcessStateEvent rid event'))))) w (cl w)
          (concat (map (\<lambda>e. [ProcessStateEvent rid (tagged rid e)]) es))"
  proof (rule yields_foreach_const [where out = "\<lambda>c e. [ProcessStateEvent rid (tagged rid e)]"])
    fix x and w :: "'a world"
    assume "x \<in> set es"
    then have d: "is_dict x" using assms(3) by (simp add: list_all_iff)
    show "yields (lookup (setitem x ''room_id'' (JStr rid)) (\<lambda>event'. total (invoke ext (ProcessStateEvent rid event'))))
            w (cl w) [ProcessStateEvent rid (tagged rid x)]"
      by (rule yields_lookup [OF setitem_tagged [OF d]])
         (rule yields_total_invoke [OF assms(1)], simp add: visible_simps)
  qed
  then have "yields (foreach es (\<lambda>event. lookup (setitem event ''room_id'' (JStr rid))
            (\<lambda>event'. total (invoke ext (ProcessStateEvent rid event'))))) w (cl w)
          (map (\<lambda>e. ProcessStateEvent rid (tagged rid e)) es)"
    by simp
  then show ?thesis
    unfolding sync_state_events_def
    by (intro yields_lookup [where v = es]) (use assms(2) in \<open>simp_all add: events_of_def\<close>)
qed

lemma yields_timeline_events:
  assumes "benign ext" and "events_of sr ''timeline'' = Inr es" and "list_all has_type es"
  shows "yields (sync_timeline_events ext rid sr) w (cl w)
           (concat (map (\<lambda>e. PutEvent rid (tagged rid e)
                              # spec_fan_out ListenerCallback (listeners (cl w)) (tagged rid e)) es))"
proof -
  have "yields (foreach es (\<lambda>event. lookup (setitem event ''room_id'' (JStr rid))
            (\<lambda>event'. seq (total (invoke ext (PutEvent rid event')))
                          (for_live (\<lambda>w. listeners (cl w)) (dispatch ext ListenerCallback event') 0)))) w (cl w)
          (concat (map (\<lambda>e. PutEvent rid (tagged rid e)
                              # spec_fan_out ListenerCallback (listeners (cl w)) (tagged rid e)) es))"
  proof (rule yields_foreach_const [where out = "\<lambda>c e. PutEvent rid (tagged rid e)
                              # spec_fan_out ListenerCallback (listeners c) (tagged rid e)"])
    fix x and w :: "'a world"
    assume "x \<in> set es"
    then have t: "has_type x" using assms(3) by (simp add: list_all_iff)
    have p: "yields (total (invoke ext (PutEvent rid (tagged rid x)))) w (cl w) [PutEvent rid (tagged rid x)]"
      by (rule yields_total_invoke [OF assms(1)]) (simp add: visible_simps)
    have f: "\<And>w1. cl w1 = cl w \<Longrightarrow>
        yields (for_live (\<lambda>w. listeners (cl w)) (dispatch ext ListenerCallback (tagged rid x)) 0) w1 (cl w)
          (spec_fan_out ListenerCallback (listeners (cl w)) (tagged rid x))"
      using yields_fan_out [OF assms(1) has_type_tagged [OF t], where mk = ListenerCallback and g = listeners]
      by (metis visible_simps(1))
    show "yields (lookup (setitem x ''room_id'' (JStr rid))
            (\<lambda>event'. seq (total (invoke ext (PutEvent rid event')))
                          (for_live (\<lambda>w. listeners (cl w)) (dispatch ext ListenerCallback event') 0)))
            w (cl w) (PutEvent rid (tagged rid x) # spec_fan_out ListenerCallback (listeners (cl w)) (tagged rid x))"
      using yields_lookup [OF setitem_tagged [OF has_type_dict [OF t]]] yields_seq [OF p f]
      by simp
  qed
  then show ?thesis
    unfolding sync_timeline_events_def global_dispatch_def
    by (intro yields_lookup [where v = es]) (use assms(2) in \<open>simp_all add: events_of_def\<close>)
qed

lemma yields_ephemeral_events:
  assumes "benign ext" and "events_of sr ''ephemeral'' = Inr es" and "list_all has_type es"
  shows "yields (sync_ephemeral_events ext rid sr) w (cl w)
           (concat (map (\<lambda>e. PutEphemeralEvent rid (tagged rid e)
                              # spec_fan_out EphemeralCallback (ephemeral_listeners (cl w)) (tagged rid e)) es))"
proof -
  have "yields (foreach es (\<lambda>event. lookup (setitem event ''room_id'' (JStr rid))
            (\<lambda>event'. seq (total (invoke ext (PutEphemeralEvent rid event')))
                          (for_live (\<lambda>w. ephemeral_listeners (cl w)) (dispatch ext EphemeralCallback event') 0)))) w (cl w)
          (concat (map (\<lambda>e. PutEphemeralEvent rid (tagged rid e)
                              # spec_fan_out EphemeralCallback (ephemeral_listeners (cl w)) (tagged rid e)) es))"
  proof (rule yields_foreach_const [where out = "\<lambda>c e. PutEphemeralEvent rid (tagged rid e)
                              # spec_fan_out EphemeralCallback (ephemeral_listeners c) (tagged rid e)"])
    fix x and w :: "'a world"
    assume "x \<in> set es"
    then have t: "has_type x" using assms(3) by (simp add: list_all_iff)
    have p: "yields (total (invoke ext (PutEphemeralEvent rid (tagged rid x)))) w (cl w) [PutEphemeralEvent rid (tagged rid x)]"
      by (rule yields_total_invoke [OF assms(1)]) (simp add: visible_simps)
    have f: "\<And>w1. cl w1 = cl w \<Longrightarrow>
        yields (for_live (\<lambda>w. ephemeral_listeners (cl w)) (dispatch ext EphemeralCallback (tagged rid x)) 0) w1 (cl w)
          (spec_fan_out EphemeralCallback (ephemeral_listeners (cl w)) (tagged rid x))"
      using yields_fan_out [OF assms(1) has_type_tagged [OF t], where mk = EphemeralCallback and g = ephemeral_listeners]
      by (metis visible_simps(2))
    show "yields (lookup (setitem x ''room_id'' (JStr rid))
            (\<lambda>event'. seq (total (invoke ext (PutEphemeralEvent rid event')))
                          (for_live (\<lambda>w. ephemeral_listeners (cl w)) (dispatch ext EphemeralCallback event') 0)))
            w (cl w) (PutEphemeralEvent rid (tagged rid x) # spec_fan_out EphemeralCallback (ephemeral_listeners (cl w)) (tagged rid x))"
      using yields_lookup [OF setitem_tagged [OF has_type_dict [OF t]]] yields_seq [OF p f]
      by simp
  qed
  then show ?thesis
    unfolding sync_ephemeral_events_def
    by (intro yields_lookup [where v = es]) (use assms(2) in \<open>simp_all add: events_of_def\<close>)
qed

lemma not_isl_obtain: "\<not> isl x \<Longrightarrow> \<exists>v. x = Inr v"
  by (cases x) simp_all

lemma filter_absent: "k \<notin> set (map fst al) \<Longrightarrow> filter (\<lambda>p. fst p \<noteq> k) al = al"
  by (induction al) auto

lemma mkroom_benign:
  assumes "benign ext" and "\<not> encryption (cl w)"
  shows "\<exists>h'. mkroom ext rid w =
           (None, \<lparr>cl = (cl w)\<lparr>rooms := AList.update rid \<lparr>room_id = rid, prev_batch = JNull, encrypted = False\<rparr> (rooms (cl w))\<rparr>,
                   hid = h', trace = trace w @ [NewRoom rid (verify_devices (cl w)), SetRoom rid]\<rparr>)"
proof -
  from benign_invoke [OF assms(1), of "NewRoom rid (verify_devices (cl w))" w] obtain h' where
    "invoke ext (NewRoom rid (verify_devices (cl w))) w
       = (None, \<lparr>cl = cl w, hid = h', trace = trace w @ [NewRoom rid (verify_devices (cl w))]\<rparr>)"
    by blast
  then show ?thesis using assms(2)
    by (simp add: mkroom_def set_room_def emit_def)
qed

lemma yields_ensure_room:
  assumes "benign ext" and "\<not> encryption (cl w)"
  shows "yields (\<lambda>w. if rid \<notin> set (map fst (rooms (cl w))) then Some (mkroom ext rid w) else ok w) w
           ((cl w)\<lparr>rooms := (if rid \<in> set (map fst (rooms (cl w))) then rooms (cl w)
                  else rooms (cl w) @ [(rid, \<lparr>room_id = rid, prev_batch = JNull, encrypted = False\<rparr>)])\<rparr>)
           (if rid \<in> set (map fst (rooms (cl w))) then [] else [NewRoom rid (verify_devices (cl w))])"
proof (cases "rid \<in> set (map fst (rooms (cl w)))")
  case True
  then show ?thesis using yields_ok [of w] by (simp add: yields_def ok_def)
next
  case False
  from mkroom_benign [OF assms, of rid] obtain h' where
    m: "mkroom ext rid w =
           (None, \<lparr>cl = (cl w)\<lparr>rooms := AList.update rid \<lparr>room_id = rid, prev_batch = JNull, encrypted = False\<rparr> (rooms (cl w))\<rparr>,
                   hid = h', trace = trace w @ [NewRoom rid (verify_devices (cl w)), SetRoom rid]\<rparr>)"
    by blast
  show ?thesis unfolding yields_def
    using False m update_append [OF False]
    by (intro exI [of _ "snd (mkroom ext rid w)"] exI [of _ "[NewRoom rid (verify_devices (cl w)), SetRoom rid]"])
       (simp add: visible_simps)
qed

lemma yields_set_prev_batch:
  assumes "bind_e (getitem sr ''timeline'') (\<lambda>t. getitem t ''prev_batch'') = Inr pb"
  shows "yields (lookup (bind_e (getitem sr ''timeline'') (\<lambda>t. getitem t ''prev_batch''))
                   (\<lambda>pb w. Some (None, set_prev_batch rid pb w))) w
           ((cl w)\<lparr>rooms := AList.map_entry rid (\<lambda>r. r\<lparr>prev_batch := pb\<rparr>) (rooms (cl w))\<rparr>) []"
  using assms
  by (simp add: yields_def lookup_def set_prev_batch_def emit_def visible_simps)

lemma yields_skip_track:
  assumes "\<not> encryption (cl w)"
  shows "yields (\<lambda>w. if encryption (cl w) \<and> room_encrypted rid w
               then Some (invoke ext TrackPendingUsers w) else ok w) w (cl w) []"
  using assms by (simp add: yields_def ok_def)

lemma yields_joined_room:
  assumes b: "benign ext" and e: "\<not> encryption (cl w)" and wf: "wf_joined sr"
  shows "yields (sync_joined_room ext rid sr) w
           (fst (spec_join_room (rid, sr) (cl w))) (snd (spec_join_room (rid, sr) (cl w)))"
proof -
  define c0 where "c0 = cl w"
  define c1 where "c1 = c0\<lparr>rooms := (if rid \<in> set (map fst (rooms c0)) then rooms c0
                  else rooms c0 @ [(rid, \<lparr>room_id = rid, prev_batch = JNull, encrypted = False\<rparr>)])\<rparr>"
  define c2 where "c2 = c1\<lparr>rooms := AList.map_entry rid (\<lambda>r. r\<lparr>prev_batch := cursor sr\<rparr>) (rooms c1)\<rparr>"
  from wf have "\<not> isl (bind_e (getitem sr ''timeline'') (\<lambda>t. getitem t ''prev_batch''))"
    by (simp add: wf_joined_def)
  then obtain pb where pb: "bind_e (getitem sr ''timeline'') (\<lambda>t. getitem t ''prev_batch'') = Inr pb"
    using not_isl_obtain by blast
  from wf have "\<not> isl (events_of sr ''state'')" by (simp add: wf_joined_def)
  then obtain st where st: "events_of sr ''state'' = Inr st" using not_isl_obtain by blast
  from wf have "\<not> isl (events_of sr ''timeline'')" by (simp add: wf_joined_def)
  then obtain tl where tl: "events_of sr ''timeline'' = Inr tl" using not_isl_obtain by blast
  from wf have "\<not> isl (events_of sr ''ephemeral'')" by (simp add: wf_joined_def)
  then obtain ep where ep: "events_of sr ''ephemeral'' = Inr ep" using not_isl_obtain by blast
  have cur: "cursor sr = pb" using pb by (simp add: cursor_def)
  have stl: "room_events sr ''state'' = st" "room_events sr ''timeline'' = tl" "room_events sr ''ephemeral'' = ep"
    using st tl ep by (simp_all add: room_events_def)
  have wfl: "list_all is_dict st" "list_all has_type tl" "list_all has_type ep"
    using wf stl by (simp_all add: wf_joined_def)
  have enc: "\<not> encryption c2" using e by (simp add: c2_def c1_def c0_def)
  have s1: "yields (\<lambda>w. if rid \<notin> set (map fst (rooms (cl w))) then Some (mkroom ext rid w) else ok w) w c1
           (if rid \<in> set (map fst (rooms c0)) then [] else [NewRoom rid (verify_devices c0)])"
    unfolding c1_def c0_def by (rule yields_ensure_room [OF b e])
  have s2: "yields (lookup (bind_e (getitem sr ''timeline'') (\<lambda>t. getitem t ''prev_batch''))
                   (\<lambda>pb w. Some (None, set_prev_batch rid pb w))) w1 c2 []" if "cl w1 = c1" for w1 :: "'a world"
    using yields_set_prev_batch [OF pb, of rid w1] cur that by (simp add: c2_def)
  have s3: "yields (sync_state_events ext rid sr) w1 c2
              (map (\<lambda>e. ProcessStateEvent rid (tagged rid e)) st)" if "cl w1 = c2" for w1 :: "'a world"
    using yields_state_events [OF b st wfl(1), of rid w1] that by simp
  have s4: "yields (sync_timeline_events ext rid sr) w1 c2
              (concat (map (\<lambda>e. PutEvent rid (tagged rid e)
                              # spec_fan_out ListenerCallback (listeners c2) (tagged rid e)) tl))"
    if "cl w1 = c2" for w1 :: "'a world"
    using yields_timeline_events [OF b tl wfl(2), of rid w1] that by simp
  have s5: "yields (\<lambda>w. if encryption (cl w) \<and> room_encrypted rid w
               then Some (invoke ext TrackPendingUsers w) else ok w) w1 c2 []"
    if "cl w1 = c2" for w1 :: "'a world"
    using yields_skip_track [of w1 rid ext] enc that by simp
  have s6: "yields (sync_ephemeral_events ext rid sr) w1 c2
              (concat (map (\<lambda>e. PutEphemeralEvent rid (tagged rid e)
                              # spec_fan_out EphemeralCallback (ephemeral_listeners c2) (tagged rid e)) ep))"
    if "cl w1 = c2" for w1 :: "'a world"
    using yields_ephemeral_events [OF b ep wfl(3), of rid w1] that by simp
  note s56 = yields_seq [OF s5 s6]
  note s456 = yields_seq [OF s4 s56]
  note s3456 = yields_seq [OF s3 s456]
  note s23456 = yields_seq [OF s2 s3456]
  note all = yields_seq [OF s1 s23456]
  have "yields (sync_joined_room ext rid sr) w c2
          ((if rid \<in> set (map fst (rooms c0)) then [] else [NewRoom rid (verify_devices c0)]) @ [] @
           map (\<lambda>e. ProcessStateEvent rid (tagged rid e)) st @
           concat (map (\<lambda>e. PutEvent rid (tagged rid e)
                              # spec_fan_out ListenerCallback (listeners c2) (tagged rid e)) tl) @ [] @
           concat (map (\<lambda>e. PutEphemeralEvent rid (tagged rid e)
                              # spec_fan_out EphemeralCallback (ephemeral_listeners c2) (tagged rid e)) ep))"
    unfolding sync_joined_room_def by (rule all) simp_all
  moreover have "fst (spec_join_room (rid, sr) (cl w)) = c2"
    by (simp add: spec_join_room_def Let_def c2_def c1_def c0_def)
  moreover have "snd (spec_join_room (rid, sr) (cl w)) =
          ((if rid \<in> set (map fst (rooms c0)) then [] else [NewRoom rid (verify_devices c0)]) @ [] @
           map (\<lambda>e. ProcessStateEvent rid (tagged rid e)) st @
           concat (map (\<lambda>e. PutEvent rid (tagged rid e)
                              # spec_fan_out ListenerCallback (listeners c2) (tagged rid e)) tl) @ [] @
           concat (map (\<lambda>e. PutEphemeralEvent rid (tagged rid e)
                              # spec_fan_out EphemeralCallback (ephemeral_listeners c2) (tagged rid e)) ep))"
    by (simp add: spec_join_room_def Let_def c2_def c1_def c0_def stl)
  ultimately show ?thesis by simp
qed

lemma yields_left_room:
  assumes "benign ext"
  shows "yields (seq (for_live (\<lambda>w. left_listeners (cl w))
                        (\<lambda>listener. invoke ext (LeftListener listener rid lr)) 0)
                     (\<lambda>w. Some (None, drop_room rid w))) w
           (fst (spec_leave_room (rid, lr) (cl w))) (snd (spec_leave_room (rid, lr) (cl w)))"
proof -
  have l: "yields (for_live (\<lambda>w. left_listeners (cl w))
                        (\<lambda>listener. invoke ext (LeftListener listener rid lr)) 0) w (cl w)
             (concat (map (\<lambda>cb. [LeftListener cb rid lr]) (drop 0 (left_listeners (cl w)))))"
  proof (rule yields_for_live)
    fix x and w' :: "'a world"
    assume "cl w' = cl w"
    then show "\<exists>w'a. invoke ext (LeftListener x rid lr) w' = (None, w'a) \<and> cl w'a = cl w \<and>
                 trace w'a = trace w' @ [LeftListener x rid lr]"
      using benign_invoke [OF assms, of "LeftListener x rid lr" w'] by auto
  next
    fix x a
    assume "a \<in> set [LeftListener x rid lr]"
    then show "visible a" by (auto simp: visible_simps)
  qed simp
  have d: "yields (\<lambda>w. Some (None, drop_room rid w)) w1
             ((cl w)\<lparr>rooms := filter (\<lambda>p. fst p \<noteq> rid) (rooms (cl w))\<rparr>) [DropRoom rid]"
    if "cl w1 = cl w" for w1 :: "'a world"
    unfolding yields_def
    using that
    by (intro exI [of _ "drop_room rid w1"] exI [of _ "[DropRoom rid]"])
       (auto simp: drop_room_def emit_def visible_simps delete_filter filter_absent)
  show ?thesis using yields_seq [OF l d] by (simp add: spec_leave_room_def)
qed

lemma yields_invite_room:
  assumes "benign ext" and "getitem ir ''invite_state'' = Inr st"
  shows "yields (for_live (\<lambda>w. invite_listeners (cl w))
            (\<lambda>listener w.
               (case getitem ir ''invite_state'' of
                  Inl e \<Rightarrow> (Some e, w)
                | Inr st \<Rightarrow> invoke ext (InviteListener listener rid st) w)) 0) w (cl w)
           (map (\<lambda>cb. InviteListener cb rid st) (invite_listeners (cl w)))"
proof -
  have "yields (for_live (\<lambda>w. invite_listeners (cl w))
            (\<lambda>listener w.
               (case getitem ir ''invite_state'' of
                  Inl e \<Rightarrow> (Some e, w)
                | Inr st \<Rightarrow> invoke ext (InviteListener listener rid st) w)) 0) w (cl w)
             (concat (map (\<lambda>cb. [InviteListener cb rid st]) (drop 0 (invite_listeners (cl w)))))"
  proof (rule yields_for_live)
    fix x and w' :: "'a world"
    assume "cl w' = cl w"
    then show "\<exists>w'a. (case getitem ir ''invite_state'' of
                  Inl e \<Rightarrow> (Some e, w')
                | Inr st \<Rightarrow> invoke ext (InviteListener x rid st) w') = (None, w'a) \<and> cl w'a = cl w \<and>
                 trace w'a = trace w' @ [InviteListener x rid st]"
      using benign_invoke [OF assms(1), of "InviteListener x rid st" w'] assms(2) by auto
  next
    fix x a
    assume "a \<in> set [InviteListener x rid st]"
    then show "visible a" by (auto simp: visible_simps)
  qed simp
  then show ?thesis by simp
qed

lemma presence_values_benign:
  assumes "benign ext"
  shows "length (presence_listeners (cl w)) = n \<Longrightarrow>
         \<exists>w'. presence_values ext n cbs u w = (None, w') \<and> cl w' = cl w
             \<and> trace w' = trace w @ map (\<lambda>cb. PresenceCallback cb u) cbs"
proof (induction cbs arbitrary: w)
  case Nil
  then show ?case by simp
next
  case (Cons cb cbs)
  from benign_invoke [OF assms, of "PresenceCallback cb u" w] obtain h' where
    i: "invoke ext (PresenceCallback cb u) w
          = (None, \<lparr>cl = cl w, hid = h', trace = trace w @ [PresenceCallback cb u]\<rparr>)"
    by blast
  define w1 where "w1 = \<lparr>cl = cl w, hid = h', trace = trace w @ [PresenceCallback cb u]\<rparr>"
  have "length (presence_listeners (cl w1)) = n" using Cons.prems by (simp add: w1_def)
  from Cons.IH [OF this] obtain w2 where
    r: "presence_values ext n cbs u w1 = (None, w2)" "cl w2 = cl w1"
       "trace w2 = trace w1 @ map (\<lambda>cb. PresenceCallback cb u) cbs"
    by blast
  have "presence_values ext n (cb # cbs) u w = (None, w2)"
    using Cons.prems i r(1) by (simp add: w1_def)
  then show ?case using r(2,3) by (simp add: w1_def)
qed

lemma yields_sync_presence:
  assumes "benign ext" and "events_of response ''presence'' = Inr us"
  shows "yields (sync_presence ext response) w (cl w) (spec_presence (cl w) response)"
proof -
  have "yields (foreach us (\<lambda>presence_update w.
          Some (presence_values ext (length (presence_listeners (cl w)))
                  (map snd (presence_listeners (cl w))) presence_update w))) w (cl w)
          (concat (map (\<lambda>u. map (\<lambda>cb. PresenceCallback cb u) (map snd (presence_listeners (cl w)))) us))"
  proof (rule yields_foreach_const [where out = "\<lambda>c u. map (\<lambda>cb. PresenceCallback cb u) (map snd (presence_listeners c))"])
    fix x and w :: "'a world"
    from presence_values_benign [OF assms(1), of w "length (presence_listeners (cl w))" "map snd (presence_listeners (cl w))" x]
    obtain w' where r: "presence_values ext (length (presence_listeners (cl w)))
                  (map snd (presence_listeners (cl w))) x w = (None, w')" "cl w' = cl w"
        "trace w' = trace w @ map (\<lambda>cb. PresenceCallback cb x) (map snd (presence_listeners (cl w)))"
      by blast
    have "filter visible (map (\<lambda>cb. PresenceCallback cb x) (map snd (presence_listeners (cl w))))
            = map (\<lambda>cb. PresenceCallback cb x) (map snd (presence_listeners (cl w)))"
      by (simp add: filter_id_conv visible_simps)
    then show "yields (\<lambda>w. Some (presence_values ext (length (presence_listeners (cl w)))
                  (map snd (presence_listeners (cl w))) x w)) w (cl w)
                (map (\<lambda>cb. PresenceCallback cb x) (map snd (presence_listeners (cl w))))"
      unfolding yields_def using r by blast
  qed
  then show ?thesis
    unfolding sync_presence_def spec_presence_def batch_presence_def
    using assms(2) by (intro yields_lookup [where v = us]) (simp_all add: events_of_def)
qed

lemma yields_sync_invite:
  assumes "benign ext" and "rooms_section response ''invite'' = Inr invs"
    and "list_all (\<lambda>kv. \<not> isl (getitem (snd kv) ''invite_state'')) invs"
  shows "yields (sync_invite ext response) w (cl w) (spec_invite (cl w) response)"
proof -
  have "yields (foreach invs (\<lambda>(rid, invite_room).
          for_live (\<lambda>w. invite_listeners (cl w))
            (\<lambda>listener w.
               (case getitem invite_room ''invite_state'' of
                  Inl e \<Rightarrow> (Some e, w)
                | Inr st \<Rightarrow> invoke ext (InviteListener listener rid st) w)) 0)) w (cl w)
          (concat (map (\<lambda>kv. map (\<lambda>cb. InviteListener cb (fst kv) (invite_state (snd kv))) (invite_listeners (cl w))) invs))"
  proof (rule yields_foreach_const [where out = "\<lambda>c kv. map (\<lambda>cb. InviteListener cb (fst kv) (invite_state (snd kv))) (invite_listeners c)"])
    fix x :: "string \<times> json" and w :: "'a world"
    assume "x \<in> set invs"
    then have "\<not> isl (getitem (snd x) ''invite_state'')" using assms(3) by (simp add: list_all_iff)
    then obtain st where st: "getitem (snd x) ''invite_state'' = Inr st" using not_isl_obtain by blast
    then have "invite_state (snd x) = st" by (simp add: invite_state_def)
    then show "yields (case x of (rid, invite_room) \<Rightarrow>
          for_live (\<lambda>w. invite_listeners (cl w))
            (\<lambda>listener w.
               (case getitem invite_room ''invite_state'' of
                  Inl e \<Rightarrow> (Some e, w)
                | Inr st \<Rightarrow> invoke ext (InviteListener listener rid st) w)) 0) w (cl w)
          (map (\<lambda>cb. InviteListener cb (fst x) (invite_state (snd x))) (invite_listeners (cl w)))"
      using yields_invite_room [OF assms(1) st, of "fst x" w] by (simp add: split_beta)
  qed
  then show ?thesis
    unfolding sync_invite_def spec_invite_def batch_rooms_def
    using assms(2) by (intro yields_lookup [where v = invs]) (simp_all add: rooms_section_def)
qed

lemma yields_sync_leave:
  assumes "benign ext" and "rooms_section response ''leave'' = Inr ls"
  shows "yields (sync_leave ext response) w
           (fst (steps spec_leave_room ls (cl w))) (snd (steps spec_leave_room ls (cl w)))"
proof -
  have "yields (foreach ls (\<lambda>(rid, left_room).
          seq (for_live (\<lambda>w. left_listeners (cl w))
                 (\<lambda>listener. invoke ext (LeftListener listener rid left_room)) 0)
              (\<lambda>w. Some (None, drop_room rid w)))) w
           (fst (steps spec_leave_room ls (cl w))) (snd (steps spec_leave_room ls (cl w)))"
  proof (rule yields_foreach [where I = "\<lambda>c. True"])
    fix x :: "string \<times> json" and w :: "'a world"
    show "yields (case x of (rid, left_room) \<Rightarrow>
          seq (for_live (\<lambda>w. left_listeners (cl w))
                 (\<lambda>listener. invoke ext (LeftListener listener rid left_room)) 0)
              (\<lambda>w. Some (None, drop_room rid w))) w
            (fst (spec_leave_room x (cl w))) (snd (spec_leave_room x (cl w)))"
      using yields_left_room [OF assms(1), of "fst x" "snd x" w] by (simp add: split_beta)
  qed simp_all
  then show ?thesis
    unfolding sync_leave_def
    using assms(2) by (intro yields_lookup [where v = ls]) (simp_all add: rooms_section_def)
qed

lemma spec_join_room_encryption: "encryption (fst (spec_join_room kv c)) = encryption c"
  by (simp add: spec_join_room_def Let_def)

lemma yields_sync_join:
  assumes "benign ext" and "rooms_section response ''join'' = Inr js"
    and "list_all (\<lambda>kv. wf_joined (snd kv)) js" and "\<not> encryption (cl w)"
  shows "yields (sync_join ext response) w
           (fst (steps spec_join_room js (cl w))) (snd (steps spec_join_room js (cl w)))"
proof -
  have "yields (foreach js (\<lambda>(rid, sync_room). sync_joined_room ext rid sync_room)) w
           (fst (steps spec_join_room js (cl w))) (snd (steps spec_join_room js (cl w)))"
  proof (rule yields_foreach [where I = "\<lambda>c. \<not> encryption c"])
    fix x :: "string \<times> json" and w :: "'a world"
    assume "x \<in> set js" and e: "\<not> encryption (cl w)"
    then have "wf_joined (snd x)" using assms(3) by (simp add: list_all_iff)
    then show "yields (case x of (rid, sync_room) \<Rightarrow> sync_joined_room ext rid sync_room) w
            (fst (spec_join_room x (cl w))) (snd (spec_join_room x (cl w)))"
      using yields_joined_room [OF assms(1) e, of "snd x" "fst x"] by (simp add: split_beta)
  next
    fix x :: "string \<times> json" and c :: client
    assume "\<not> encryption c"
    then show "\<not> encryption (fst (spec_join_room x c))" by (simp add: spec_join_room_encryption)
  qed (rule assms(4))
  then show ?thesis
    unfolding sync_join_def
    using assms(2) by (intro yields_lookup [where v = js]) (simp_all add: rooms_section_def)
qed

lemma getitem_is_dict: "\<not> isl (getitem j k) \<Longrightarrow> is_dict j"
  by (cases j) simp_all

lemma contains_dict: "is_dict j \<Longrightarrow> \<exists>b. contains j k = Inr b"
  by (cases j) simp_all

lemma yields_skip_device_lists:
  "\<not> encryption (cl w) \<Longrightarrow> yields (sync_device_lists ext response) w (cl w) []"
  by (simp add: yields_def sync_device_lists_def ok_def)

lemma yields_set_token:
  "getitem response ''next_batch'' = Inr tok \<Longrightarrow>
   yields (sync_set_token response) w ((cl w)\<lparr>sync_token := tok\<rparr>) [SetSyncToken tok]"
  unfolding yields_def sync_set_token_def lookup_def
  by (intro exI [of _ "emit (SetSyncToken tok) (w\<lparr>cl := (cl w)\<lparr>sync_token := tok\<rparr>\<rparr>)"]
            exI [of _ "[SetSyncToken tok]"])
     (simp add: emit_def visible_simps)

lemma yields_skip_first:
  "\<not> encryption (cl w) \<Longrightarrow> yields (sync_first ext) w (cl w) []"
  by (simp add: yields_def sync_first_def ok_def)

lemma yields_skip_one_time_keys:
  "\<not> encryption (cl w) \<Longrightarrow> yields (sync_one_time_keys ext response) w (cl w) []"
  by (simp add: yields_def sync_one_time_keys_def ok_def)

lemma yields_skip_to_device:
  assumes e: "\<not> encryption (cl w)" and d: "is_dict response"
    and wf: "contains response ''to_device'' = Inr True \<longrightarrow> \<not> isl (events_of response ''to_device'')"
  shows "yields (sync_to_device ext response) w (cl w) []"
proof -
  let ?body = "\<lambda>event w. if encryption (cl w) then
                     (case getitem event ''type'' of
                        Inl e \<Rightarrow> Some (Some e, w)
                      | Inr t \<Rightarrow>
                          if t = JStr ''m.room.encrypted''
                          then Some (invoke ext (HandleEncryptedEvent event) w)
                          else if t = JStr ''m.room_key_request''
                          then Some (invoke ext (HandleKeyRequest event) w)
                          else ok w)
                   else ok w"
  have loop: "yields (foreach es ?body) w1 (cl w) []" if "cl w1 = cl w" for es and w1 :: "'a world"
    using that
  proof (induction es arbitrary: w1)
    case Nil
    then show ?case using yields_ok [of w1] by simp
  next
    case (Cons x xs)
    have h: "yields (?body x) w1 (cl w) []" using Cons.prems e by (simp add: yields_def ok_def)
    have "yields (seq (?body x) (foreach xs ?body)) w1 (cl w) ([] @ [])"
      by (rule yields_seq [OF h]) (rule Cons.IH)
    then show ?case by simp
  qed
  from contains_dict [OF d] obtain b where b: "contains response ''to_device'' = Inr b" by blast
  have first: "yields (lookup (contains response ''to_device'') (\<lambda>present.
            if present then
              lookup (bind_e (bind_e (getitem response ''to_device'') (\<lambda>t. getitem t ''events'')) iter)
                (\<lambda>events. foreach events ?body)
            else ok)) w (cl w) []"
  proof (cases b)
    case True
    with b wf have "\<not> isl (events_of response ''to_device'')" by simp
    then obtain es where es: "events_of response ''to_device'' = Inr es" using not_isl_obtain by blast
    have "yields (lookup (bind_e (bind_e (getitem response ''to_device'') (\<lambda>t. getitem t ''events'')) iter)
                (\<lambda>events. foreach events ?body)) w (cl w) []"
      using es by (intro yields_lookup [where v = es] loop) (simp_all add: events_of_def)
    then show ?thesis using b True by (intro yields_lookup [where v = True]) simp_all
  next
    case False
    then show ?thesis using b yields_ok [of w] by (intro yields_lookup [where v = False]) simp_all
  qed
  have second: "yields (\<lambda>w. if encryption (cl w) then Some (invoke ext TriggerKeyRequestsCallback w) else ok w)
                 w1 (cl w) []" if "cl w1 = cl w" for w1 :: "'a world"
    using that e by (simp add: yields_def ok_def)
  show ?thesis
    unfolding sync_to_device_def using yields_seq [OF first second] by simp
qed

lemma steps_leave_encryption: "encryption (fst (steps spec_leave_room ls c)) = encryption c"
  by (induction ls arbitrary: c) (simp_all add: split_beta spec_leave_room_def)

lemma yields_reconcile:
  assumes b: "benign ext" and e: "\<not> encryption (cl w)" and wf: "wf_batch response"
  shows "yields (reconcile ext response) w
           (fst (spec_reconcile response (cl w))) (snd (spec_reconcile response (cl w)))"
proof -
  from wf have "\<not> isl (getitem response ''next_batch'')" by (simp add: wf_batch_def)
  then obtain tok where tok: "getitem response ''next_batch'' = Inr tok" using not_isl_obtain by blast
  have dict: "is_dict response" using tok getitem_is_dict [of response "''next_batch''"] by simp
  from wf have "\<not> isl (events_of response ''presence'')" by (simp add: wf_batch_def)
  then obtain us where us: "events_of response ''presence'' = Inr us" using not_isl_obtain by blast
  from wf have "\<not> isl (rooms_section response ''invite'')" by (simp add: wf_batch_def)
  then obtain invs where invs: "rooms_section response ''invite'' = Inr invs" using not_isl_obtain by blast
  from wf have "\<not> isl (rooms_section response ''leave'')" by (simp add: wf_batch_def)
  then obtain ls where ls: "rooms_section response ''leave'' = Inr ls" using not_isl_obtain by blast
  from wf have "\<not> isl (rooms_section response ''join'')" by (simp add: wf_batch_def)
  then obtain js where js: "rooms_section response ''join'' = Inr js" using not_isl_obtain by blast
  have br: "batch_rooms response ''invite'' = invs" "batch_rooms response ''leave'' = ls"
    "batch_rooms response ''join'' = js" "batch_token response = tok"
    using invs ls js tok by (simp_all add: batch_rooms_def batch_token_def)
  have wfi: "list_all (\<lambda>kv. \<not> isl (getitem (snd kv) ''invite_state'')) invs"
    and wfj: "list_all (\<lambda>kv. wf_joined (snd kv)) js"
    and wft: "contains response ''to_device'' = Inr True \<longrightarrow> \<not> isl (events_of response ''to_device'')"
    using wf br by (simp_all add: wf_batch_def)
  define c1 where "c1 = (cl w)\<lparr>sync_token := tok\<rparr>"
  define c2 where "c2 = fst (steps spec_leave_room ls c1)"
  define c3 where "c3 = fst (steps spec_join_room js c2)"
  have e1: "\<not> encryption c1" using e by (simp add: c1_def)
  have e2: "\<not> encryption c2" using e1 by (simp add: c2_def steps_leave_encryption)
  have p1: "yields (sync_device_lists ext response) w (cl w) []"
    by (rule yields_skip_device_lists [OF e])
  have p2: "yields (sync_set_token response) w1 c1 [SetSyncToken tok]" if "cl w1 = cl w" for w1 :: "'a world"
    using yields_set_token [OF tok, of w1] that by (simp add: c1_def)
  have p3: "yields (sync_first ext) w1 c1 []" if "cl w1 = c1" for w1 :: "'a world"
    using yields_skip_first [of w1 ext] that e1 by simp
  have p4: "yields (sync_presence ext response) w1 c1 (spec_presence c1 response)"
    if "cl w1 = c1" for w1 :: "'a world"
    using yields_sync_presence [OF b us, of w1] that by simp
  have p5: "yields (sync_invite ext response) w1 c1 (spec_invite c1 response)"
    if "cl w1 = c1" for w1 :: "'a world"
    using yields_sync_invite [OF b invs wfi, of w1] that by simp
  have p6: "yields (sync_leave ext response) w1 c2 (snd (steps spec_leave_room ls c1))"
    if "cl w1 = c1" for w1 :: "'a world"
    using yields_sync_leave [OF b ls, of w1] that by (simp add: c2_def)
  have p7: "yields (sync_to_device ext response) w1 c2 []" if "cl w1 = c2" for w1 :: "'a world"
    using yields_skip_to_device [of w1 response ext] that e2 dict wft by simp
  have p8: "yields (sync_one_time_keys ext response) w1 c2 []" if "cl w1 = c2" for w1 :: "'a world"
    using yields_skip_one_time_keys [of w1 ext response] that e2 by simp
  have p9: "yields (sync_join ext response) w1 c3 (snd (steps spec_join_room js c2))"
    if "cl w1 = c2" for w1 :: "'a world"
    using yields_sync_join [OF b js wfj, of w1] that e2 by (simp add: c3_def)
  note q8 = yields_seq [OF p8 p9]
  note q7 = yields_seq [OF p7 q8]
  note q6 = yields_seq [OF p6 q7]
  note q5 = yields_seq [OF p5 q6]
  note q4 = yields_seq [OF p4 q5]
  note q3 = yields_seq [OF p3 q4]
  note q2 = yields_seq [OF p2 q3]
  note q1 = yields_seq [OF p1 q2]
  have "yields (reconcile ext response) w c3
          ([] @ [SetSyncToken tok] @ [] @ spec_presence c1 response @ spec_invite c1 response @
           snd (steps spec_leave_room ls c1) @ [] @ [] @ snd (steps spec_join_room js c2))"
    unfolding reconcile_def by (rule q1) simp_all
  moreover have "fst (spec_reconcile response (cl w)) = c3"
    by (simp add: spec_reconcile_def Let_def br c1_def c2_def c3_def)
  moreover have "snd (spec_reconcile response (cl w)) =
          ([] @ [SetSyncToken tok] @ [] @ spec_presence c1 response @ spec_invite c1 response @
           snd (steps spec_leave_room ls c1) @ [] @ [] @ snd (steps spec_join_room js c2))"
    by (simp add: spec_reconcile_def Let_def br c1_def c2_def c3_def)
  ultimately show ?thesis by simp
qed

lemma sync_benign:
  assumes b: "benign ext" and e: "\<not> encryption (cl w)"
    and r: "fst (ext (ApiSync (sync_token (cl w)) timeout_ms (sync_filter (cl w))) (cl w, hid w)) = Inr response"
    and wf: "wf_batch response"
  shows "\<exists>w' tr. sync ext timeout_ms w = Some (None, w')
           \<and> cl w' = fst (spec_reconcile response (cl w))
           \<and> trace w' = trace w @ ApiSync (sync_token (cl w)) timeout_ms (sync_filter (cl w)) # tr
           \<and> filter visible tr = snd (spec_reconcile response (cl w))"
proof -
  let ?a = "ApiSync (sync_token (cl w)) timeout_ms (sync_filter (cl w))"
  from benign_call [OF b, of ?a w] obtain v h' where
    c: "call ext ?a w = (Inr v, \<lparr>cl = cl w, hid = h', trace = trace w @ [?a]\<rparr>)" by blast
  then have "v = response" using r by (auto simp: call_def split: prod.splits)
  define w1 where "w1 = \<lparr>cl = cl w, hid = h', trace = trace w @ [?a]\<rparr>"
  have c': "call ext ?a w = (Inr response, w1)" using c \<open>v = response\<close> by (simp add: w1_def)
  have e1: "\<not> encryption (cl w1)" using e by (simp add: w1_def)
  from yields_reconcile [OF b e1 wf] obtain w' tr where
    y: "reconcile ext response w1 = Some (None, w')" "cl w' = fst (spec_reconcile response (cl w1))"
       "trace w' = trace w1 @ tr" "filter visible tr = snd (spec_reconcile response (cl w1))"
    unfolding yields_def by blast
  have "sync ext timeout_ms w = Some (None, w')" using c' y(1) by (simp add: sync_def)
  then show ?thesis using y(2,3,4) by (auto simp: w1_def)
qed





lemma global_fan_out [simp]:
  "filter global_calls (spec_fan_out ListenerCallback ls e) = spec_fan_out ListenerCallback ls e"
  "filter global_calls (spec_fan_out EphemeralCallback ls e) = []"
  by (simp_all add: spec_fan_out_def)

lemma leave_fan_out [simp]:
  "filter leave_steps (spec_fan_out ListenerCallback ls e) = []"
  "filter leave_steps (spec_fan_out EphemeralCallback ls e) = []"
  by (simp_all add: spec_fan_out_def)





lemma global_presence_invite [simp]:
  "filter global_calls (spec_presence c r) = []" "filter global_calls (spec_invite c r) = []"
  "filter leave_steps (spec_presence c r) = []" "filter leave_steps (spec_invite c r) = []"
  by (simp_all add: spec_presence_def spec_invite_def filter_concat comp_def)

lemma spec_join_room_listeners [simp]:
  "listeners (fst (spec_join_room kv c)) = listeners c"
  "left_listeners (fst (spec_join_room kv c)) = left_listeners c"
  by (simp_all add: spec_join_room_def Let_def)

lemma spec_leave_room_listeners [simp]:
  "listeners (fst (spec_leave_room kv c)) = listeners c"
  "left_listeners (fst (spec_leave_room kv c)) = left_listeners c"
  by (simp_all add: spec_leave_room_def)









lemma grows_refl: "grows P w w"
  by (simp add: grows_def)

lemma grows_same: "trace w' = trace w \<Longrightarrow> grows P w w'"
  by (simp add: grows_def)

lemma grows_trans: "grows P w w1 \<Longrightarrow> grows P w1 w2 \<Longrightarrow> grows P w w2"
  by (auto simp: grows_def)

lemma grows_step: "trace w' = trace w @ [a] \<Longrightarrow> P a \<Longrightarrow> grows P w w'"
  by (simp add: grows_def)

lemma call_trace: "trace (snd (call ext a w)) = trace w @ [a]"
  by (simp add: call_def split: prod.splits)

lemma invoke_trace: "trace (snd (invoke ext a w)) = trace w @ [a]"
  using call_trace [of ext a w] by (auto simp: invoke_def split: prod.splits sum.splits)

lemma grows_invoke: "P a \<Longrightarrow> invoke ext a w = (r, w') \<Longrightarrow> grows P w w'"
  using invoke_trace [of ext a w] by (auto intro: grows_step)

lemma grows_call: "P a \<Longrightarrow> call ext a w = (r, w') \<Longrightarrow> grows P w w'"
  using call_trace [of ext a w] by (auto intro: grows_step)

lemma keeps_to_ok: "keeps_to P ok"
  by (simp add: keeps_to_def ok_def grows_refl)

lemma keeps_to_seq:
  assumes "keeps_to P a" and "keeps_to P b"
  shows "keeps_to P (seq a b)"
  unfolding keeps_to_def
proof (intro allI impI)
  fix w r w'
  assume s: "seq a b w = Some (r, w')"
  then obtain r1 w1 where a: "a w = Some (r1, w1)"
    by (cases "a w") (auto simp: seq_def)
  then have g1: "grows P w w1" using assms(1) by (simp add: keeps_to_def)
  show "grows P w w'"
  proof (cases r1)
    case None
    then have "b w1 = Some (r, w')" using s a by (simp add: seq_def)
    then have "grows P w1 w'" using assms(2) by (simp add: keeps_to_def)
    then show ?thesis using g1 grows_trans by blast
  next
    case (Some e)
    then have "w' = w1" using s a by (simp add: seq_def)
    then show ?thesis using g1 by simp
  qed
qed

lemma keeps_to_lookup: "(\<And>v. keeps_to P (k v)) \<Longrightarrow> keeps_to P (lookup x k)"
  unfolding keeps_to_def lookup_def
  by (auto split: sum.splits intro: grows_refl)

lemma keeps_to_foreach: "(\<And>x. x \<in> set xs \<Longrightarrow> keeps_to P (body x)) \<Longrightarrow> keeps_to P (foreach xs body)"
  by (induction xs) (simp_all add: keeps_to_ok keeps_to_seq)

lemma keeps_to_total_invoke: "P a \<Longrightarrow> keeps_to P (total (invoke ext a))"
  unfolding keeps_to_def total_def by (auto intro: grows_invoke)

lemma for_live_grows:
  assumes run: "for_live xs body i w = Some y"
    and body: "\<And>x w r w'. body x w = (r, w') \<Longrightarrow> grows P w w'"
  shows "grows P w (snd y)"
proof -
  have "(\<forall>x w r w'. body x w = (r, w') \<longrightarrow> grows P w w') \<longrightarrow> grows P w (snd y)"
  proof (rule for_live.raw_induct
      [where P = "\<lambda>xs body i w y. (\<forall>x w r w'. body x w = (r, w') \<longrightarrow> grows P w w') \<longrightarrow> grows P w (snd y)",
       OF _ run])
    fix for_live' :: "('a world \<Rightarrow> 'b list) \<Rightarrow> ('b \<Rightarrow> 'a world \<Rightarrow> 'a result) \<Rightarrow> nat \<Rightarrow> 'a world \<Rightarrow> 'a result option"
      and xs body i w y
    assume ih: "\<And>body i w b y. for_live' body i w b = Some y \<Longrightarrow>
                 (\<forall>x w r w'. i x w = (r, w') \<longrightarrow> grows P w w') \<longrightarrow> grows P b (snd y)"
      and eq: "(if i < length (xs w)
         then case body (xs w ! i) w of
              (None, w') \<Rightarrow> for_live' xs body (Suc i) w'
              | (Some e, w') \<Rightarrow> Some (Some e, w')
         else Some (None, w)) = Some y"
    show "(\<forall>x w r w'. body x w = (r, w') \<longrightarrow> grows P w w') \<longrightarrow> grows P w (snd y)"
    proof
      assume b: "\<forall>x w r w'. body x w = (r, w') \<longrightarrow> grows P w w'"
      show "grows P w (snd y)"
      proof (cases "i < length (xs w)")
        case False
        then show ?thesis using eq by (auto simp: grows_refl)
      next
        case True
        obtain r w1 where s: "body (xs w ! i) w = (r, w1)" by (cases "body (xs w ! i) w") auto
        have g: "grows P w w1" using b s by blast
        show ?thesis
        proof (cases r)
          case None
          then have "for_live' xs body (Suc i) w1 = Some y" using eq True s by simp
          from ih [OF this] b have "grows P w1 (snd y)" by blast
          then show ?thesis using g by (rule grows_trans [rotated])
        next
          case (Some e)
          then have "y = (Some e, w1)" using eq True s by simp
          then show ?thesis using g by simp
        qed
      qed
    qed
  qed
  then show ?thesis using body by blast
qed

lemma keeps_to_for_live:
  "(\<And>x w r w'. body x w = (r, w') \<Longrightarrow> grows P w w') \<Longrightarrow> keeps_to P (for_live xs body i)"
  unfolding keeps_to_def
proof (intro allI impI)
  fix w r w'
  assume b: "\<And>x w r w'. body x w = (r, w') \<Longrightarrow> grows P w w'"
    and r: "for_live xs body i w = Some (r, w')"
  show "grows P w w'" using for_live_grows [OF r b] by simp
qed

lemma dispatch_grows:
  "(\<And>u cb. P (mk u cb e)) \<Longrightarrow> dispatch ext mk e l w = (r, w') \<Longrightarrow> grows P w w'"
  unfolding dispatch_def
  by (auto split: option.splits sum.splits if_splits intro: grows_invoke grows_refl)

lemma finishes_ok: "finishes P ok"
  by (simp add: finishes_def ok_def grows_refl)

lemma finishes_seq: "finishes P a \<Longrightarrow> finishes P b \<Longrightarrow> finishes P (seq a b)"
  unfolding finishes_def seq_def
proof
  fix w
  assume a: "\<forall>w. \<exists>r w'. a w = Some (r, w') \<and> grows P w w'"
    and b: "\<forall>w. \<exists>r w'. b w = Some (r, w') \<and> grows P w w'"
  from a obtain r1 w1 where r1: "a w = Some (r1, w1)" "grows P w w1" by blast
  from b obtain r2 w2 where r2: "b w1 = Some (r2, w2)" "grows P w1 w2" by blast
  show "\<exists>r w'. (case a w of None \<Rightarrow> None | Some (None, w') \<Rightarrow> b w'
                 | Some (Some e, w') \<Rightarrow> Some (Some e, w')) = Some (r, w') \<and> grows P w w'"
    using r1 r2 by (cases r1) (auto intro: grows_trans)
qed

lemma finishes_lookup: "(\<And>v. finishes P (k v)) \<Longrightarrow> finishes P (lookup x k)"
  unfolding finishes_def lookup_def
  by (auto split: sum.splits intro: grows_refl)

lemma finishes_foreach: "(\<And>x. x \<in> set xs \<Longrightarrow> finishes P (body x)) \<Longrightarrow> finishes P (foreach xs body)"
  by (induction xs) (simp_all add: finishes_ok finishes_seq)

lemma finishes_total_invoke: "P a \<Longrightarrow> finishes P (total (invoke ext a))"
  unfolding finishes_def total_def
proof
  fix w
  assume "P a"
  then show "\<exists>r w'. Some (invoke ext a w) = Some (r, w') \<and> grows P w w'"
    using grows_invoke [of P a ext w] by (cases "invoke ext a w") auto
qed

lemma finishes_if: "finishes P a \<Longrightarrow> finishes P b \<Longrightarrow> finishes P (if c then a else b)"
  by simp

lemma aborts_seq_left: "aborts P a \<Longrightarrow> aborts P (seq a b)"
  unfolding aborts_def seq_def
proof
  fix w
  assume "\<forall>w. \<exists>e w'. a w = Some (Some e, w') \<and> grows P w w'"
  then obtain e w' where "a w = Some (Some e, w')" "grows P w w'" by blast
  then show "\<exists>e w'. (case a w of None \<Rightarrow> None | Some (None, w') \<Rightarrow> b w'
                 | Some (Some e, w') \<Rightarrow> Some (Some e, w')) = Some (Some e, w') \<and> grows P w w'"
    by auto
qed

lemma aborts_seq_right: "finishes P a \<Longrightarrow> aborts P b \<Longrightarrow> aborts P (seq a b)"
  unfolding aborts_def finishes_def seq_def
proof
  fix w
  assume a: "\<forall>w. \<exists>r w'. a w = Some (r, w') \<and> grows P w w'"
    and b: "\<forall>w. \<exists>e w'. b w = Some (Some e, w') \<and> grows P w w'"
  from a obtain r1 w1 where r1: "a w = Some (r1, w1)" "grows P w w1" by blast
  from b obtain e2 w2 where r2: "b w1 = Some (Some e2, w2)" "grows P w1 w2" by blast
  show "\<exists>e w'. (case a w of None \<Rightarrow> None | Some (None, w') \<Rightarrow> b w'
                 | Some (Some e, w') \<Rightarrow> Some (Some e, w')) = Some (Some e, w') \<and> grows P w w'"
    using r1 r2 by (cases r1) (auto intro: grows_trans)
qed

section \<open>Listener registries\<close>

lemma filter_uid_absent: "u \<notin> uid ` set xs \<Longrightarrow> filter (\<lambda>l. uid l \<noteq> u) xs = xs"
  by (induction xs) auto

text \<open>
  C10. Adding a global listener and removing it by the returned id is a round trip:
  when the collection holds no entry with the id, \<open>add_listener\<close> returns the id and
  \<open>remove_listener\<close> of that id gives back the client as it was. \<open>remove_listener\<close>
  keeps exactly the entries with another uid, in their order, and changes nothing
  else.
\<close>

theorem add_remove_listener_round_trip:
  "(u \<notin> uid ` set (listeners c) \<longrightarrow>
      fst (add_listener u cb et c) = Some u \<and>
      remove_listener u (snd (add_listener u cb et c)) = c) \<and>
   listeners (remove_listener u c) = filter (\<lambda>l. uid l \<noteq> u) (listeners c) \<and>
   remove_listener u c = c\<lparr>listeners := listeners (remove_listener u c)\<rparr>"
  by (simp add: add_listener_def remove_listener_def filter_uid_absent)

theorem add_remove_listener_round_trip_witness:
  "2 \<notin> uid ` set (listeners (snd (add_listener 1 10 (Some ''A'') idle_client))) \<and>
   fst (add_listener 2 20 None (snd (add_listener 1 10 (Some ''A'') idle_client))) = Some 2 \<and>
   remove_listener 2 (snd (add_listener 2 20 None (snd (add_listener 1 10 (Some ''A'') idle_client))))
     = snd (add_listener 1 10 (Some ''A'') idle_client) \<and>
   listeners (remove_listener 1 (snd (add_listener 2 20 None (snd (add_listener 1 10 (Some ''A'') idle_client)))))
     = [\<lparr>uid = 2, callback = 20, event_type = None\<rparr>]"
  using add_remove_listener_round_trip [of 2 "snd (add_listener 1 10 (Some ''A'') idle_client)" 20 None]
        add_remove_listener_round_trip [of 1 "snd (add_listener 2 20 None (snd (add_listener 1 10 (Some ''A'') idle_client)))" 0 None]
  by (simp add: add_listener_def idle_client_def init_client_def)

text \<open>
  C3, as the code has it. On the global and on the ephemeral registry \<open>add\<close> returns
  the new id and puts the entry (id, callback, filter) at the end of the list, and
  \<open>remove\<close> keeps exactly the entries with another id, so that it changes nothing when
  the id is not registered. On the presence registry \<open>add\<close> returns the new id and
  binds it to the callback, the other bindings staying as they are. The invite and
  the leave registry only append the callback: their \<open>add\<close> returns no id, and the
  client has no operation that removes from them. No operation touches a field of the
  client other than its own registry.
\<close>

theorem registries_add_remove:
  "fst (add_listener u cb et c) = Some u \<and>
   snd (add_listener u cb et c) =
     c\<lparr>listeners := listeners c @ [\<lparr>uid = u, callback = cb, event_type = et\<rparr>]\<rparr> \<and>
   fst (add_ephemeral_listener u cb et c) = Some u \<and>
   snd (add_ephemeral_listener u cb et c) =
     c\<lparr>ephemeral_listeners :=
          ephemeral_listeners c @ [\<lparr>uid = u, callback = cb, event_type = et\<rparr>]\<rparr> \<and>
   fst (add_presence_listener u cb c) = Some u \<and>
   map_of (presence_listeners (snd (add_presence_listener u cb c))) =
     (map_of (presence_listeners c))(u \<mapsto> cb) \<and>
   snd (add_presence_listener u cb c) =
     c\<lparr>presence_listeners := presence_listeners (snd (add_presence_listener u cb c))\<rparr> \<and>
   remove_listener u c = c\<lparr>listeners := filter (\<lambda>l. uid l \<noteq> u) (listeners c)\<rparr> \<and>
   remove_ephemeral_listener u c =
     c\<lparr>ephemeral_listeners := filter (\<lambda>l. uid l \<noteq> u) (ephemeral_listeners c)\<rparr> \<and>
   (u \<notin> uid ` set (listeners c) \<longrightarrow> remove_listener u c = c) \<and>
   (u \<notin> uid ` set (ephemeral_listeners c) \<longrightarrow> remove_ephemeral_listener u c = c) \<and>
   add_invite_listener cb c = (None, c\<lparr>invite_listeners := invite_listeners c @ [cb]\<rparr>) \<and>
   add_leave_listener cb c = (None, c\<lparr>left_listeners := left_listeners c @ [cb]\<rparr>)"
  by (simp add: add_listener_def add_ephemeral_listener_def add_presence_listener_def
      remove_listener_def remove_ephemeral_listener_def add_invite_listener_def
      add_leave_listener_def filter_uid_absent update_conv')

text \<open>On the client with two global listeners, one ephemeral and one presence
  listener: removing the unregistered id 5 changes nothing, removing the id 1 leaves
  the listener 2, and the added listeners come last.\<close>

theorem registries_add_remove_witness:
  "5 \<notin> uid ` set (listeners busy_client) \<and> remove_listener 5 busy_client = busy_client \<and>
   5 \<notin> uid ` set (ephemeral_listeners busy_client) \<and>
   remove_ephemeral_listener 5 busy_client = busy_client \<and>
   listeners (remove_listener 1 busy_client) = [\<lparr>uid = 2, callback = 20, event_type = None\<rparr>] \<and>
   ephemeral_listeners (remove_ephemeral_listener 6 busy_client) = [] \<and>
   listeners (snd (add_listener 5 7 None busy_client)) =
     [\<lparr>uid = 1, callback = 10, event_type = Some ''A''\<rparr>,
      \<lparr>uid = 2, callback = 20, event_type = None\<rparr>,
      \<lparr>uid = 5, callback = 7, event_type = None\<rparr>] \<and>
   ephemeral_listeners (snd (add_ephemeral_listener 5 7 (Some ''m.typing'') busy_client)) =
     [\<lparr>uid = 6, callback = 60, event_type = None\<rparr>,
      \<lparr>uid = 5, callback = 7, event_type = Some ''m.typing''\<rparr>] \<and>
   map_of (presence_listeners (snd (add_presence_listener 5 7 busy_client))) 5 = Some 7 \<and>
   map_of (presence_listeners (snd (add_presence_listener 5 7 busy_client))) 3 = Some 30 \<and>
   fst (add_invite_listener 7 busy_client) = None \<and>
   invite_listeners (snd (add_invite_listener 7 busy_client)) = [40, 7]"
  using registries_add_remove [of 5 7 None busy_client]
        registries_add_remove [of 1 7 None busy_client]
        registries_add_remove [of 6 7 None busy_client]
        registries_add_remove [of 5 7 "Some ''m.typing''" busy_client]
  by (simp add: busy_client_def idle_client_def init_client_def)

theorem registries_counterexample:
  "fst (add_invite_listener 7 idle_client) = None \<and>
   fst (add_leave_listener 7 idle_client) = None \<and>
   remove_presence_listener 5 idle_client = Inl (KeyError ''uid'')"
  by (simp add: add_invite_listener_def add_leave_listener_def remove_presence_listener_def
      idle_client_def init_client_def)

section \<open>Starting the listener thread\<close>

text \<open>
  C4, as the code has it. \<open>start_listener_thread\<close> does not look at the state of the
  loop: every call that the operating system grants a thread makes one more started
  worker, sets \<open>should_listen\<close> and makes \<open>sync_thread\<close> refer to the new thread.
\<close>

theorem start_listener_thread_always_starts:
  "workers (start_listener_thread True timeout_ms handler p) = Suc (workers p) \<and>
   should_listen (client_of (start_listener_thread True timeout_ms handler p)) \<and>
   sync_thread (client_of (start_listener_thread True timeout_ms handler p)) = Some (length (threads p))"
  by (simp add: start_listener_thread_def workers_def Let_def)

theorem start_listener_thread_counterexample:
  "should_listen (client_of (start_listener_thread True 30000 None idle_process)) \<and>
   workers (start_listener_thread True 30000 None idle_process) = 1 \<and>
   workers (start_listener_thread True 30000 None
              (start_listener_thread True 30000 None idle_process)) = 2"
  by (simp add: start_listener_thread_def workers_def Let_def idle_process_def)

section \<open>Backoff of the poll loop\<close>

text \<open>
  C2. With base backoff 5 and ceiling 60, three consecutive replies of status 500 make
  the loop sleep 5, 5 and 5 seconds: \<open>listen_forever\<close> doubles \<^verbatim>\<open>_bad_sync_timeout\<close>
  and sleeps for \<^verbatim>\<open>bad_sync_timeout\<close>, the base. The fourth reply, of status 401 and
  without a handler, ends the run.
\<close>

theorem listen_forever_sleeps_base:
  "map_option (\<lambda>r. (fst r, sleeps (trace (snd r))))
     (listen_forever failing_server 30000 None 5 backoff_world)
   = Some (Some (MatrixRequestError 401), [5, 5, 5])"
  unfolding listen_forever_def backoff_world_def idle_client_def init_client_def
  apply (subst listen_loop.simps)
  apply (simp add: sync_def call_def emit_def)
  apply (subst listen_loop.simps)
  apply (simp add: sync_def call_def emit_def)
  apply (subst listen_loop.simps)
  apply (simp add: sync_def call_def emit_def)
  apply (subst listen_loop.simps)
  apply (simp add: sync_def call_def emit_def handle_exception_def sleeps_def)
  done

section \<open>A whole batch in a benign environment\<close>

lemma benign_reply_server: "benign (reply_server reply)"
  unfolding benign_def
proof (intro allI)
  fix a :: action and c :: client and h :: unit
  show "\<exists>v h'. reply_server reply a (c, h) = (Inr v, c, h')"
    by (cases a) simp_all
qed

lemma wf_full_reply: "wf_batch full_reply"
  by code_simp


lemma busy_world_plain: "\<not> encryption (cl busy_world)"
  by (simp add: busy_world_def busy_client_def idle_client_def init_client_def)

lemma reply_server_reply:
  "fst (reply_server reply (ApiSync (sync_token (cl w)) timeout_ms (sync_filter (cl w))) (cl w, hid w))
     = Inr reply"
  by simp

lemma spec_reconcile_full_reply:
  "snd (spec_reconcile full_reply busy_client) =
     [SetSyncToken (JStr ''s2''),
      PresenceCallback 30 presence_event,
      InviteListener 40 ''!inv'' (JObj [(''events'', JArr [])]),
      LeftListener 50 ''!old'' (JObj []), DropRoom ''!old'',
      LeftListener 50 ''!gone'' (JObj []), DropRoom ''!gone'',
      NewRoom ''!r1'' False,
      ProcessStateEvent ''!r1'' (tagged ''!r1'' name_event),
      PutEvent ''!r1'' (tagged ''!r1'' event_a),
      ListenerCallback 1 10 (tagged ''!r1'' event_a),
      ListenerCallback 2 20 (tagged ''!r1'' event_a),
      PutEvent ''!r1'' (tagged ''!r1'' event_b),
      ListenerCallback 2 20 (tagged ''!r1'' event_b),
      PutEphemeralEvent ''!r1'' (tagged ''!r1'' typing_event),
      EphemeralCallback 6 60 (tagged ''!r1'' typing_event)]"
  by code_simp

text \<open>
  C8. In a benign environment, without encryption and on a batch that has all its
  sections, \<open>sync\<close> ends normally and the steps it has taken after the request are, in
  this order, those of \<open>spec_reconcile\<close>: the token is set, the presence updates are
  dispatched, then the invites, then each left room is dispatched and dropped, then
  each joined room is created if new, gets its state events, its timeline events with
  the global fan-out and its ephemeral events with the ephemeral fan-out.
\<close>

theorem sync_follows_spec_order:
  assumes "benign ext" and "\<not> encryption (cl w)"
    and "fst (ext (ApiSync (sync_token (cl w)) timeout_ms (sync_filter (cl w))) (cl w, hid w)) = Inr response"
    and "wf_batch response"
  shows "\<exists>w' tr. sync ext timeout_ms w = Some (None, w')
           \<and> trace w' = trace w @ ApiSync (sync_token (cl w)) timeout_ms (sync_filter (cl w)) # tr
           \<and> filter visible tr = snd (spec_reconcile response (cl w))
           \<and> cl w' = fst (spec_reconcile response (cl w))"
  using sync_benign [OF assms] by blast

theorem sync_follows_spec_order_witness:
  "benign (reply_server full_reply) \<and> \<not> encryption (cl busy_world) \<and> wf_batch full_reply \<and>
   (\<exists>w' tr. sync (reply_server full_reply) 30000 busy_world = Some (None, w')
      \<and> trace w' = ApiSync (JStr ''s1'') 30000 (sync_filter busy_client) # tr
      \<and> filter visible tr =
          [SetSyncToken (JStr ''s2''),
           PresenceCallback 30 presence_event,
           InviteListener 40 ''!inv'' (JObj [(''events'', JArr [])]),
           LeftListener 50 ''!old'' (JObj []), DropRoom ''!old'',
           LeftListener 50 ''!gone'' (JObj []), DropRoom ''!gone'',
           NewRoom ''!r1'' False,
           ProcessStateEvent ''!r1'' (tagged ''!r1'' name_event),
           PutEvent ''!r1'' (tagged ''!r1'' event_a),
           ListenerCallback 1 10 (tagged ''!r1'' event_a),
           ListenerCallback 2 20 (tagged ''!r1'' event_a),
           PutEvent ''!r1'' (tagged ''!r1'' event_b),
           ListenerCallback 2 20 (tagged ''!r1'' event_b),
           PutEphemeralEvent ''!r1'' (tagged ''!r1'' typing_event),
           EphemeralCallback 6 60 (tagged ''!r1'' typing_event)])"
proof -
  from sync_follows_spec_order [OF benign_reply_server busy_world_plain reply_server_reply wf_full_reply]
  obtain w' tr where
    r: "sync (reply_server full_reply) 30000 busy_world = Some (None, w')"
       "trace w' = trace busy_world @ ApiSync (sync_token (cl busy_world)) 30000 (sync_filter (cl busy_world)) # tr"
       "filter visible tr = snd (spec_reconcile full_reply (cl busy_world))"
    by blast
  have t: "trace w' = ApiSync (JStr ''s1'') 30000 (sync_filter busy_client) # tr"
    using r(2) by (simp add: busy_world_def busy_client_def)
  have v: "filter visible tr = snd (spec_reconcile full_reply busy_client)"
    using r(3) by (simp add: busy_world_def)
  show ?thesis
    using benign_reply_server [of full_reply] busy_world_plain wf_full_reply r(1) t v
    unfolding spec_reconcile_full_reply by blast
qed

section \<open>Global listeners: registration order and type filter\<close>


lemma registered_keeps:
  "encryption (registered regs c) = encryption c"
  "sync_token (registered regs c) = sync_token c"
  "sync_filter (registered regs c) = sync_filter c"
  by (induction regs arbitrary: c) (simp_all add: add_listener_def)





section \<open>Left rooms and the active set\<close>




section \<open>A batch without the rooms section\<close>

lemma presence_values_grows:
  "presence_values ext n cbs u w = (r, w') \<Longrightarrow> grows before_rooms w w'"
proof (induction cbs arbitrary: w)
  case Nil
  then show ?case by (auto split: if_splits intro: grows_refl)
next
  case (Cons cb cbs)
  obtain r1 w1 where i: "invoke ext (PresenceCallback cb u) w = (r1, w1)"
    by (cases "invoke ext (PresenceCallback cb u) w") auto
  have g: "grows before_rooms w w1" by (rule grows_invoke [OF _ i]) simp
  show ?case
  proof (cases "length (presence_listeners (cl w)) \<noteq> n")
    case True
    then show ?thesis using Cons.prems by (auto intro: grows_refl)
  next
    case False
    show ?thesis
    proof (cases r1)
      case None
      then have "presence_values ext n cbs u w1 = (r, w')" using Cons.prems False i by simp
      then have "grows before_rooms w1 w'" by (rule Cons.IH)
      then show ?thesis using g grows_trans by blast
    next
      case (Some e)
      then have "w' = w1" using Cons.prems False i by simp
      then show ?thesis using g by simp
    qed
  qed
qed

lemma finishes_device_lists: "finishes before_rooms (sync_device_lists ext response)"
  unfolding finishes_def
proof
  fix w :: "'a world"
  have inner: "finishes before_rooms
     (lookup (contains response ''device_lists'') (\<lambda>present.
          if present then
            seq (lookup (bind_e (getitem response ''device_lists'') (\<lambda>d. get_default d ''changed''))
                   (\<lambda>changed. if truthy changed
                      then total (invoke ext (UpdateUserDeviceKeys changed (sync_token (cl w))))
                      else ok))
                (lookup (bind_e (getitem response ''device_lists'') (\<lambda>d. get_default d ''left''))
                   (\<lambda>left. if truthy left then total (invoke ext (StopTrackingUsers left)) else ok))
          else ok))"
    by (intro finishes_lookup finishes_if finishes_seq finishes_ok finishes_total_invoke) simp_all
  show "\<exists>r w'. sync_device_lists ext response w = Some (r, w') \<and> grows before_rooms w w'"
  proof (cases "encryption (cl w)")
    case True
    then show ?thesis using inner by (simp add: sync_device_lists_def finishes_def)
  next
    case False
    then show ?thesis by (simp add: sync_device_lists_def ok_def grows_refl)
  qed
qed

lemma finishes_set_token: "finishes before_rooms (sync_set_token response)"
  unfolding sync_set_token_def
proof (rule finishes_lookup)
  fix tok
  show "finishes before_rooms (\<lambda>w. Some (None, emit (SetSyncToken tok) (w\<lparr>cl := (cl w)\<lparr>sync_token := tok\<rparr>\<rparr>)))"
    unfolding finishes_def by (auto simp: emit_def intro: grows_step)
qed

lemma finishes_first: "finishes before_rooms (sync_first ext)"
  unfolding finishes_def
proof
  fix w :: "'a world"
  show "\<exists>r w'. sync_first ext w = Some (r, w') \<and> grows before_rooms w w'"
  proof (cases "encryption (cl w) \<and> first_sync (cl w)")
    case False
    then show ?thesis by (auto simp: sync_first_def ok_def grows_refl)
  next
    case True
    define w1 where "w1 = w\<lparr>cl := (cl w)\<lparr>first_sync := False\<rparr>\<rparr>"
    obtain r w' where i: "invoke ext (UpdateAfterRestart (sync_token (cl w1))) w1 = (r, w')"
      by (cases "invoke ext (UpdateAfterRestart (sync_token (cl w1))) w1") auto
    have "grows before_rooms w1 w'" by (rule grows_invoke [OF _ i]) simp
    moreover have "grows before_rooms w w1" by (rule grows_same) (simp add: w1_def)
    ultimately have "grows before_rooms w w'" using grows_trans by blast
    then show ?thesis using True i by (simp add: sync_first_def Let_def w1_def)
  qed
qed

lemma finishes_presence: "finishes before_rooms (sync_presence ext response)"
  unfolding sync_presence_def
proof (intro finishes_lookup finishes_foreach)
  fix updates x
  show "finishes before_rooms (\<lambda>w. Some (presence_values ext (length (presence_listeners (cl w)))
                  (map snd (presence_listeners (cl w))) x w))"
    unfolding finishes_def
  proof
    fix w :: "'a world"
    obtain r w' where p: "presence_values ext (length (presence_listeners (cl w)))
                  (map snd (presence_listeners (cl w))) x w = (r, w')"
      by (cases "presence_values ext (length (presence_listeners (cl w)))
                  (map snd (presence_listeners (cl w))) x w") auto
    then show "\<exists>r w'. Some (presence_values ext (length (presence_listeners (cl w)))
                  (map snd (presence_listeners (cl w))) x w) = Some (r, w') \<and> grows before_rooms w w'"
      using presence_values_grows [OF p] by simp
  qed
qed

lemma aborts_invite:
  assumes "isl (getitem response ''rooms'')"
  shows "aborts P (sync_invite ext response)"
proof -
  from assms obtain e where "getitem response ''rooms'' = Inl e" by (cases "getitem response ''rooms''") auto
  then show ?thesis
    by (simp add: aborts_def sync_invite_def lookup_def bind_e_def grows_refl)
qed

lemma aborts_reconcile:
  assumes "isl (getitem response ''rooms'')"
  shows "aborts before_rooms (reconcile ext response)"
  unfolding reconcile_def
  by (intro aborts_seq_right finishes_device_lists finishes_set_token finishes_first
        finishes_presence aborts_seq_left aborts_invite assms)

lemma raises_seq_left: "raises a w e c tr \<Longrightarrow> raises (seq a b) w e c tr"
  by (auto simp: raises_def seq_def)

lemma raises_seq_right:
  assumes "yields a w c1 tr1" and "\<And>w1. cl w1 = c1 \<Longrightarrow> raises b w1 e c2 tr2"
  shows "raises (seq a b) w e c2 (tr1 @ tr2)"
proof -
  from assms(1) obtain w1 t1 where
    a: "a w = Some (None, w1)" "cl w1 = c1" "trace w1 = trace w @ t1" "filter visible t1 = tr1"
    by (auto simp: yields_def)
  from assms(2) [OF a(2)] obtain w2 t2 where
    b: "b w1 = Some (Some e, w2)" "cl w2 = c2" "trace w2 = trace w1 @ t2" "filter visible t2 = tr2"
    by (auto simp: raises_def)
  have "seq a b w = Some (Some e, w2)" using a(1) b(1) by (simp add: seq_def)
  moreover have "trace w2 = trace w @ (t1 @ t2)" using a(3) b(3) by simp
  moreover have "filter visible (t1 @ t2) = tr1 @ tr2" using a(4) b(4) by simp
  ultimately show ?thesis using b(2) unfolding raises_def by blast
qed

lemma raises_invite:
  "getitem response ''rooms'' = Inl err \<Longrightarrow> raises (sync_invite ext response) w err (cl w) []"
  by (simp add: raises_def sync_invite_def lookup_def bind_e_def)

lemma before_rooms_visible: "list_all before_rooms tr \<Longrightarrow> filter visible tr = tr"
proof (induction tr)
  case Nil
  then show ?case by simp
next
  case (Cons a tr)
  then have "before_rooms a" by simp
  then have "visible a" by (cases a) (simp_all add: visible_def)
  then show ?case using Cons by simp
qed

text \<open>Among callees that neither raise nor change the client and without encryption,
  the run up to the first use of the \<^verbatim>\<open>rooms\<close> section sets the token and dispatches
  the presence updates, and there it raises the error of the missing section.\<close>

lemma raises_reconcile:
  assumes b: "benign ext" and e: "\<not> encryption (cl w)"
    and tok: "getitem response ''next_batch'' = Inr tok"
    and us: "events_of response ''presence'' = Inr us"
    and err: "getitem response ''rooms'' = Inl err"
  shows "raises (reconcile ext response) w err ((cl w)\<lparr>sync_token := tok\<rparr>)
           (SetSyncToken tok #
            concat (map (\<lambda>u. map (\<lambda>cb. PresenceCallback cb u) (map snd (presence_listeners (cl w)))) us))"
proof -
  define c1 where "c1 = (cl w)\<lparr>sync_token := tok\<rparr>"
  have e1: "\<not> encryption c1" using e by (simp add: c1_def)
  have p5: "raises (seq (sync_invite ext response) rest) w1 err c1 []"
    if "cl w1 = c1" for w1 :: "'a world" and rest
    using raises_seq_left [OF raises_invite [OF err, of ext w1]] that by simp
  have p4: "raises (seq (sync_presence ext response) (seq (sync_invite ext response) rest)) w1 err c1
              (spec_presence c1 response @ [])"
    if "cl w1 = c1" for w1 :: "'a world" and rest
  proof (rule raises_seq_right)
    show "yields (sync_presence ext response) w1 c1 (spec_presence c1 response)"
      using yields_sync_presence [OF b us, of w1] that by simp
    show "\<And>w2. cl w2 = c1 \<Longrightarrow> raises (seq (sync_invite ext response) rest) w2 err c1 []"
      by (rule p5)
  qed
  have p3: "raises (seq (sync_first ext) (seq (sync_presence ext response)
                     (seq (sync_invite ext response) rest))) w1 err c1
              ([] @ spec_presence c1 response @ [])"
    if "cl w1 = c1" for w1 :: "'a world" and rest
  proof (rule raises_seq_right)
    show "yields (sync_first ext) w1 c1 []"
      using yields_skip_first [of w1 ext] e1 that by simp
    show "\<And>w2. cl w2 = c1 \<Longrightarrow> raises (seq (sync_presence ext response)
                     (seq (sync_invite ext response) rest)) w2 err c1 (spec_presence c1 response @ [])"
      by (rule p4)
  qed
  have p2: "raises (seq (sync_set_token response) (seq (sync_first ext) (seq (sync_presence ext response)
                     (seq (sync_invite ext response) rest)))) w1 err c1
              ([SetSyncToken tok] @ [] @ spec_presence c1 response @ [])"
    if "cl w1 = cl w" for w1 :: "'a world" and rest
  proof (rule raises_seq_right)
    show "yields (sync_set_token response) w1 c1 [SetSyncToken tok]"
      using yields_set_token [OF tok, of w1] that by (simp add: c1_def)
    show "\<And>w2. cl w2 = c1 \<Longrightarrow> raises (seq (sync_first ext) (seq (sync_presence ext response)
                     (seq (sync_invite ext response) rest))) w2 err c1 ([] @ spec_presence c1 response @ [])"
      by (rule p3)
  qed
  have p1: "raises (reconcile ext response) w err c1
              ([] @ [SetSyncToken tok] @ [] @ spec_presence c1 response @ [])"
    unfolding reconcile_def
  proof (rule raises_seq_right)
    show "yields (sync_device_lists ext response) w (cl w) []"
      by (rule yields_skip_device_lists [OF e])
    show "\<And>w1. cl w1 = cl w \<Longrightarrow> raises (seq (sync_set_token response) (seq (sync_first ext)
                     (seq (sync_presence ext response) (seq (sync_invite ext response)
                     (seq (sync_leave ext response) (seq (sync_to_device ext response)
                     (seq (sync_one_time_keys ext response) (sync_join ext response)))))))) w1 err c1
              ([SetSyncToken tok] @ [] @ spec_presence c1 response @ [])"
      by (rule p2)
  qed
  have "spec_presence c1 response =
          concat (map (\<lambda>u. map (\<lambda>cb. PresenceCallback cb u) (map snd (presence_listeners (cl w)))) us)"
    by (simp add: spec_presence_def batch_presence_def us c1_def)
  then show ?thesis using p1 by (simp add: c1_def)
qed

text \<open>
  C1, as the code has it. A batch without the \<^verbatim>\<open>rooms\<close> section is rejected: \<open>sync\<close> ends
  with an exception, whatever the callees do, and after the request it has taken only
  steps that come before the first use of that section: no invite, leave, global or
  ephemeral listener is invoked and no room is created, dropped or updated. The steps
  before are not undone: among callees that neither raise nor change the client and
  without encryption, on a batch that has its token and its presence section, the run
  ends with the error of the missing section, in the client it started from but for
  the token, which is the token of the batch, and its steps after the request are the
  token assignment and one call of every presence listener for every presence
  update of the batch.
\<close>

theorem missing_rooms_rejected:
  assumes "fst (ext (ApiSync (sync_token (cl w)) timeout_ms (sync_filter (cl w))) (cl w, hid w)) = Inr response"
    and "getitem response ''rooms'' = Inl err"
  shows "(\<exists>e w' tr. sync ext timeout_ms w = Some (Some e, w')
            \<and> trace w' = trace w @ ApiSync (sync_token (cl w)) timeout_ms (sync_filter (cl w)) # tr
            \<and> list_all before_rooms tr) \<and>
         (benign ext \<and> \<not> encryption (cl w) \<and> getitem response ''next_batch'' = Inr tok \<and>
          events_of response ''presence'' = Inr us \<longrightarrow>
            (\<exists>w'. sync ext timeout_ms w = Some (Some err, w')
               \<and> cl w' = (cl w)\<lparr>sync_token := tok\<rparr>
               \<and> trace w' = trace w @ ApiSync (sync_token (cl w)) timeout_ms (sync_filter (cl w))
                              # SetSyncToken tok
                              # concat (map (\<lambda>u. map (\<lambda>cb. PresenceCallback cb u)
                                                   (map snd (presence_listeners (cl w)))) us)))"
proof -
  let ?a = "ApiSync (sync_token (cl w)) timeout_ms (sync_filter (cl w))"
  obtain w1 where c: "call ext ?a w = (Inr response, w1)"
    using assms(1) by (cases "ext ?a (cl w, hid w)") (auto simp: call_def)
  have t1: "trace w1 = trace w @ [?a]" using call_trace [of ext ?a w] c by simp
  have m: "isl (getitem response ''rooms'')" using assms(2) by simp
  from aborts_reconcile [OF m, of ext] obtain e w' where
    r: "reconcile ext response w1 = Some (Some e, w')" "grows before_rooms w1 w'"
    unfolding aborts_def by blast
  from r(2) obtain tr where tr: "trace w' = trace w1 @ tr" "list_all before_rooms tr"
    unfolding grows_def by blast
  have s: "sync ext timeout_ms w = Some (Some e, w')" using c r(1) by (simp add: sync_def)
  have t: "trace w' = trace w @ ?a # tr" using tr(1) t1 by simp
  have first: "\<exists>e w' tr. sync ext timeout_ms w = Some (Some e, w') \<and> trace w' = trace w @ ?a # tr
                 \<and> list_all before_rooms tr"
    using s t tr(2) by blast
  have second: "\<exists>w'. sync ext timeout_ms w = Some (Some err, w')
               \<and> cl w' = (cl w)\<lparr>sync_token := tok\<rparr>
               \<and> trace w' = trace w @ ?a # SetSyncToken tok
                              # concat (map (\<lambda>u. map (\<lambda>cb. PresenceCallback cb u)
                                                   (map snd (presence_listeners (cl w)))) us)"
    if h: "benign ext" "\<not> encryption (cl w)" "getitem response ''next_batch'' = Inr tok"
          "events_of response ''presence'' = Inr us"
  proof -
    from benign_call [OF h(1), of ?a w] c have c1: "cl w1 = cl w" by auto
    then have e1: "\<not> encryption (cl w1)" using h(2) by simp
    from raises_reconcile [OF h(1) e1 h(3,4) assms(2)] obtain w2 tr2 where
      q: "reconcile ext response w1 = Some (Some err, w2)" "cl w2 = (cl w1)\<lparr>sync_token := tok\<rparr>"
         "trace w2 = trace w1 @ tr2"
         "filter visible tr2 = SetSyncToken tok #
            concat (map (\<lambda>u. map (\<lambda>cb. PresenceCallback cb u) (map snd (presence_listeners (cl w1)))) us)"
      unfolding raises_def by blast
    have same: "e = err" "w2 = w'" using q(1) r(1) by simp_all
    then have "tr2 = tr" using q(3) tr(1) by simp
    then have "filter visible tr2 = tr2" using before_rooms_visible [OF tr(2)] by simp
    then have "tr = SetSyncToken tok #
            concat (map (\<lambda>u. map (\<lambda>cb. PresenceCallback cb u) (map snd (presence_listeners (cl w)))) us)"
      using q(4) \<open>tr2 = tr\<close> c1 by simp
    then show ?thesis using s t same q(2) c1 by auto
  qed
  show ?thesis using first second by blast
qed

text \<open>The client with token \<open>s1\<close> and the presence listener 30, on the batch with token
  \<open>s2\<close>, one presence update and no \<^verbatim>\<open>rooms\<close> section.\<close>

theorem missing_rooms_rejected_witness:
  "fst (reply_server reply_without_rooms
          (ApiSync (sync_token (cl busy_world)) 30000 (sync_filter (cl busy_world)))
          (cl busy_world, hid busy_world)) = Inr reply_without_rooms \<and>
   getitem reply_without_rooms ''rooms'' = Inl (KeyError ''rooms'') \<and>
   benign (reply_server reply_without_rooms) \<and> \<not> encryption (cl busy_world) \<and>
   getitem reply_without_rooms ''next_batch'' = Inr (JStr ''s2'') \<and>
   events_of reply_without_rooms ''presence'' = Inr [presence_event] \<and>
   (\<exists>e w' tr. sync (reply_server reply_without_rooms) 30000 busy_world = Some (Some e, w')
      \<and> trace w' = trace busy_world
                     @ ApiSync (sync_token (cl busy_world)) 30000 (sync_filter (cl busy_world)) # tr
      \<and> list_all before_rooms tr) \<and>
   (\<exists>w'. sync (reply_server reply_without_rooms) 30000 busy_world = Some (Some (KeyError ''rooms''), w')
      \<and> cl w' = busy_client\<lparr>sync_token := JStr ''s2''\<rparr>
      \<and> trace w' = [ApiSync (JStr ''s1'') 30000 (sync_filter busy_client),
                     SetSyncToken (JStr ''s2''), PresenceCallback 30 presence_event])"
proof -
  have h1: "fst (reply_server reply_without_rooms
          (ApiSync (sync_token (cl busy_world)) 30000 (sync_filter (cl busy_world)))
          (cl busy_world, hid busy_world)) = Inr reply_without_rooms"
    by simp
  have h2: "getitem reply_without_rooms ''rooms'' = Inl (KeyError ''rooms'')"
    by (simp add: reply_without_rooms_def)
  have h3: "getitem reply_without_rooms ''next_batch'' = Inr (JStr ''s2'')"
    by (simp add: reply_without_rooms_def)
  have h4: "events_of reply_without_rooms ''presence'' = Inr [presence_event]"
    by (simp add: reply_without_rooms_def events_of_def bind_e_def)
  have l: "cl busy_world = busy_client" "trace busy_world = []"
          "sync_token busy_client = JStr ''s1''" "presence_listeners busy_client = [(3, 30)]"
    by (simp_all add: busy_world_def busy_client_def)
  note t = missing_rooms_rejected [where ext = "reply_server reply_without_rooms" and w = busy_world
            and timeout_ms = 30000 and response = reply_without_rooms
            and tok = "JStr ''s2''" and us = "[presence_event]", OF h1 h2]
  show ?thesis
    using t h1 h2 h3 h4 benign_reply_server [of reply_without_rooms] busy_world_plain
    unfolding l by simp
qed

theorem failure_atomicity_counterexample:
  "sync_token (cl busy_world) = JStr ''s1'' \<and>
   outcome (sync (reply_server reply_without_rooms) 30000 busy_world) = Some (Some (KeyError ''rooms'')) \<and>
   final_token (sync (reply_server reply_without_rooms) 30000 busy_world) = Some (JStr ''s2'') \<and>
   final_trace (sync (reply_server reply_without_rooms) 30000 busy_world)
     = Some [ApiSync (JStr ''s1'') 30000 (sync_filter busy_client),
             SetSyncToken (JStr ''s2''),
             PresenceCallback 30 presence_event]"
  by code_simp

section \<open>Events carry the id of their room\<close>

lemma hands_event_simps [simp]:
  "hands_event (ProcessStateEvent rid e)" "hands_event (PutEvent rid e)"
  "hands_event (PutEphemeralEvent rid e)" "hands_event (ListenerCallback u cb e)"
  "hands_event (EphemeralCallback u cb e)" "\<not> hands_event (NewRoom rid b)"
  "\<not> hands_event (SetSyncToken tok)" "\<not> hands_event (PresenceCallback cb e)"
  "\<not> hands_event (InviteListener cb rid e)" "\<not> hands_event (LeftListener cb rid e)"
  "\<not> hands_event (DropRoom rid)" "\<not> hands_event (ApiSync tok t f)"
  by (simp_all add: hands_event_def)


lemma carries_room_simps [simp]:
  "carries_room rid (ProcessStateEvent r e) = (getitem e ''room_id'' = Inr (JStr rid))"
  "carries_room rid (PutEvent r e) = (getitem e ''room_id'' = Inr (JStr rid))"
  "carries_room rid (PutEphemeralEvent r e) = (getitem e ''room_id'' = Inr (JStr rid))"
  "carries_room rid (ListenerCallback u cb e) = (getitem e ''room_id'' = Inr (JStr rid))"
  "carries_room rid (EphemeralCallback u cb e) = (getitem e ''room_id'' = Inr (JStr rid))"
  by (simp_all add: carries_room_def)


lemma hand_overs_fan_out [simp]:
  "filter hands_event (spec_fan_out ListenerCallback ls e) = spec_fan_out ListenerCallback ls e"
  "filter hands_event (spec_fan_out EphemeralCallback ls e) = spec_fan_out EphemeralCallback ls e"
  by (simp_all add: spec_fan_out_def)





lemma hand_overs_presence_invite [simp]:
  "filter hands_event (spec_presence c r) = []" "filter hands_event (spec_invite c r) = []"
  by (simp_all add: spec_presence_def spec_invite_def filter_concat comp_def)


lemma spec_room_ephemeral [simp]:
  "ephemeral_listeners (fst (spec_join_room kv c)) = ephemeral_listeners c"
  "ephemeral_listeners (fst (spec_leave_room kv c)) = ephemeral_listeners c"
  by (simp_all add: spec_join_room_def spec_leave_room_def Let_def)



lemma wf_full_room: "wf_joined full_room"
  by code_simp



section \<open>Removing a listener during the global fan-out\<close>

lemma prune_after_empty: "prune_after u {} ls = ls"
  by (induction ls) auto

lemma prune_after_nth:
  "distinct (map uid ls) \<Longrightarrow> i < length ls \<Longrightarrow>
   prune_after (uid (ls ! i)) R ls = take (Suc i) ls @ filter (\<lambda>x. uid x \<notin> R) (drop (Suc i) ls)"
proof (induction ls arbitrary: i)
  case Nil
  then show ?case by simp
next
  case (Cons l ls)
  show ?case
  proof (cases i)
    case 0
    then show ?thesis by simp
  next
    case (Suc k)
    then have k: "k < length ls" using Cons.prems by simp
    then have "uid (ls ! k) \<in> uid ` set ls" by simp
    then have "uid l \<noteq> uid (ls ! k)" using Cons.prems(1) by auto
    then show ?thesis using Suc Cons.IH [of k] Cons.prems(1) k by simp
  qed
qed

lemma pruned_refl: "pruned ls ls"
  unfolding pruned_def by (rule exI [of _ "{}"]) simp

lemma pruned_distinct: "distinct (map uid ls0) \<Longrightarrow> pruned ls0 ls \<Longrightarrow> distinct (map uid ls)"
  by (auto simp: pruned_def distinct_map_filter)

lemma pruned_trans: "pruned ls0 ls1 \<Longrightarrow> pruned ls1 ls2 \<Longrightarrow> pruned ls0 ls2"
proof -
  assume "pruned ls0 ls1" and "pruned ls1 ls2"
  then obtain R1 R2 where "ls1 = filter (\<lambda>l. uid l \<notin> R1) ls0" "ls2 = filter (\<lambda>l. uid l \<notin> R2) ls1"
    unfolding pruned_def by blast
  then have "ls2 = filter (\<lambda>l. uid l \<notin> R1 \<union> R2) ls0" by (auto intro: filter_cong)
  then show ?thesis unfolding pruned_def by blast
qed

lemma pruned_tail:
  assumes "distinct (map uid ls)"
  shows "pruned ls (take n ls @ filter (\<lambda>x. uid x \<notin> R) (drop n ls))"
proof -
  have d: "uid ` set (take n ls) \<inter> uid ` set (drop n ls) = {}"
    using assms distinct_append [of "map uid (take n ls)" "map uid (drop n ls)"]
    by (simp flip: map_append)
  have a: "filter (\<lambda>x. uid x \<notin> R \<inter> uid ` set (drop n ls)) (take n ls) = take n ls"
    unfolding filter_id_conv using d by blast
  have b: "filter (\<lambda>x. uid x \<notin> R \<inter> uid ` set (drop n ls)) (drop n ls)
           = filter (\<lambda>x. uid x \<notin> R) (drop n ls)"
    by (rule filter_cong [OF refl]) blast
  have "take n ls @ filter (\<lambda>x. uid x \<notin> R) (drop n ls)
        = filter (\<lambda>x. uid x \<notin> R \<inter> uid ` set (drop n ls)) (take n ls)
          @ filter (\<lambda>x. uid x \<notin> R \<inter> uid ` set (drop n ls)) (drop n ls)"
    unfolding a b by (rule refl)
  also have "\<dots> = filter (\<lambda>x. uid x \<notin> R \<inter> uid ` set (drop n ls)) ls"
    by (simp flip: filter_append)
  finally show ?thesis unfolding pruned_def by blast
qed

lemma fan_out_Cons:
  "spec_fan_out mk (l # ls) e = (if accepts l e then [mk (uid l) (callback l) e] else []) @ spec_fan_out mk ls e"
  by (simp add: spec_fan_out_def)

lemma pruning_loop:
  assumes h: "removes_later_only ext ls0" and d: "distinct (map uid ls0)" and t: "has_type e"
  shows "pruned ls0 (listeners (cl w)) \<Longrightarrow> i \<le> length (listeners (cl w)) \<Longrightarrow>
     \<exists>w'. for_live (\<lambda>w. listeners (cl w)) (dispatch ext ListenerCallback e) i w = Some (None, w')
        \<and> pruned ls0 (listeners (cl w'))
        \<and> take i (listeners (cl w')) = take i (listeners (cl w))
        \<and> trace w' = trace w @ spec_fan_out ListenerCallback (drop i (listeners (cl w'))) e"
proof (induction "length (listeners (cl w)) - i" arbitrary: i w rule: less_induct)
  case less
  let ?ls = "listeners (cl w)"
  let ?loop = "for_live (\<lambda>w. listeners (cl w)) (dispatch ext ListenerCallback e)"
  show ?case
  proof (cases "i < length ?ls")
    case False
    then have "?loop i w = Some (None, w)" by (intro for_live_done) simp
    moreover have "drop i ?ls = []" using False by simp
    ultimately show ?thesis using less.prems(1) by (simp add: spec_fan_out_def)
  next
    case True
    define l where "l = ?ls ! i"
    have dl: "distinct (map uid ?ls)" by (rule pruned_distinct [OF d less.prems(1)])
    from t obtain v where v: "getitem e ''type'' = Inr v"
      by (cases "getitem e ''type''") (simp_all add: has_type_def)
    have step: "\<exists>w1. dispatch ext ListenerCallback e l w = (None, w1)
             \<and> pruned ls0 (listeners (cl w1))
             \<and> take (Suc i) (listeners (cl w1)) = take (Suc i) ?ls
             \<and> length (listeners (cl w1)) \<le> length ?ls
             \<and> trace w1 = trace w @ (if accepts l e then [ListenerCallback (uid l) (callback l) e] else [])"
    proof (cases "accepts l e")
      case False
      then have "dispatch ext ListenerCallback e l w = (None, w)"
        using v by (auto simp: dispatch_def accepts_def split: option.splits)
      then show ?thesis using False less.prems(1) by simp
    next
      case acc: True
      have mem: "uid l \<in> uid ` set ?ls" using True by (simp add: l_def)
      from h obtain r c' h' where
        x: "ext (ListenerCallback (uid l) (callback l) e) (cl w, hid w) = (Inr r, c', h')"
           "pruned ls0 ?ls \<and> uid l \<in> uid ` set ?ls \<longrightarrow> (\<exists>R. listeners c' = prune_after (uid l) R ?ls)"
        unfolding removes_later_only_def by blast
      then obtain R where "listeners c' = prune_after (uid l) R ?ls"
        using less.prems(1) mem by blast
      then have ls': "listeners c' = take (Suc i) ?ls @ filter (\<lambda>x. uid x \<notin> R) (drop (Suc i) ?ls)"
        using prune_after_nth [OF dl True, of R] by (simp add: l_def)
      define w1 :: "'a world" where
        "w1 = \<lparr>cl = c', hid = h', trace = trace w @ [ListenerCallback (uid l) (callback l) e]\<rparr>"
      have i: "invoke ext (ListenerCallback (uid l) (callback l) e) w = (None, w1)"
        using x(1) by (simp add: invoke_def call_def w1_def)
      have "dispatch ext ListenerCallback e l w = (None, w1)"
        using acc v i by (auto simp: dispatch_def accepts_def split: option.splits)
      moreover have "pruned ls0 (listeners (cl w1))"
        using pruned_trans [OF less.prems(1) pruned_tail [OF dl, of "Suc i" R]] ls'
        by (simp add: w1_def)
      moreover have "take (Suc i) (listeners (cl w1)) = take (Suc i) ?ls"
        using ls' True by (simp add: w1_def)
      moreover have "length (listeners (cl w1)) \<le> length ?ls"
      proof -
        have "length (filter (\<lambda>x. uid x \<notin> R) (drop (Suc i) ?ls)) \<le> length (drop (Suc i) ?ls)"
          by (rule length_filter_le)
        then show ?thesis using ls' True by (simp add: w1_def)
      qed
      ultimately show ?thesis using acc by (auto simp: w1_def)
    qed
    then obtain w1 where
      s: "dispatch ext ListenerCallback e l w = (None, w1)" "pruned ls0 (listeners (cl w1))"
         "take (Suc i) (listeners (cl w1)) = take (Suc i) ?ls"
         "length (listeners (cl w1)) \<le> length ?ls"
         "trace w1 = trace w @ (if accepts l e then [ListenerCallback (uid l) (callback l) e] else [])"
      by blast
    have len1: "Suc i \<le> length (listeners (cl w1))"
    proof -
      have "length (take (Suc i) (listeners (cl w1))) = Suc i" using s(3) True by simp
      then show ?thesis by simp
    qed
    have m: "length (listeners (cl w1)) - Suc i < length ?ls - i" using s(4) True len1 by simp
    from less.hyps [OF m s(2) len1] obtain w' where
      r: "?loop (Suc i) w1 = Some (None, w')" "pruned ls0 (listeners (cl w'))"
         "take (Suc i) (listeners (cl w')) = take (Suc i) (listeners (cl w1))"
         "trace w' = trace w1 @ spec_fan_out ListenerCallback (drop (Suc i) (listeners (cl w'))) e"
      by blast
    have tk: "take (Suc i) (listeners (cl w')) = take (Suc i) ?ls" using r(3) s(3) by simp
    have len': "i < length (listeners (cl w'))"
    proof -
      have "length (take (Suc i) (listeners (cl w'))) = Suc i" using tk True by simp
      then show ?thesis by simp
    qed
    have nth: "listeners (cl w') ! i = l"
    proof -
      have "listeners (cl w') ! i = take (Suc i) (listeners (cl w')) ! i" by simp
      also have "\<dots> = take (Suc i) ?ls ! i" using tk by simp
      also have "\<dots> = l" by (simp add: l_def)
      finally show ?thesis .
    qed
    have dr: "drop i (listeners (cl w')) = l # drop (Suc i) (listeners (cl w'))"
      using Cons_nth_drop_Suc [OF len'] nth by simp
    have "?loop i w = Some (None, w')"
      using True s(1) r(1) by (simp add: for_live_step l_def)
    moreover have "take i (listeners (cl w')) = take i ?ls"
    proof -
      have "take i (take (Suc i) (listeners (cl w'))) = take i (take (Suc i) ?ls)" using tk by simp
      then show ?thesis by (simp add: min_def)
    qed
    moreover have "trace w' = trace w @ spec_fan_out ListenerCallback (drop i (listeners (cl w'))) e"
      using r(4) s(5) by (simp add: dr fan_out_Cons)
    ultimately show ?thesis using r(2) by blast
  qed
qed

lemma later_removing_later_only: "removes_later_only later_removing three_listeners"
  unfolding removes_later_only_def
proof (intro allI)
  fix u cb :: nat and e :: json and c :: client and h :: unit
  show "\<exists>v c' h'. later_removing (ListenerCallback u cb e) (c, h) = (Inr v, c', h') \<and>
          (pruned three_listeners (listeners c) \<and> u \<in> uid ` set (listeners c) \<longrightarrow>
             (\<exists>R. listeners c' = prune_after u R (listeners c)))"
  proof (cases "u = 1")
    case False
    have "listeners c = prune_after u {} (listeners c)" by (simp add: prune_after_empty)
    then show ?thesis using False by auto
  next
    case True
    have "listeners (remove_listener 3 c) = prune_after 1 {3} (listeners c)"
      if p: "pruned three_listeners (listeners c)" and m: "1 \<in> uid ` set (listeners c)"
    proof -
      from p obtain R where R: "listeners c = filter (\<lambda>l. uid l \<notin> R) three_listeners"
        unfolding pruned_def by blast
      have "1 \<notin> R" using m R by (auto simp: three_listeners_def split: if_splits)
      then show ?thesis using R by (simp add: remove_listener_def three_listeners_def)
    qed
    then show ?thesis using True by auto
  qed
qed

text \<open>
  C5, as the code has it. The fan-out of a timeline event walks the live list of
  global listeners by position, and \<open>remove_listener\<close> rewrites that list in place.
  When the callbacks remove only listeners that come after the one being invoked (and
  none raises), the fan-out ends with the list of the listeners that were not
  removed, and it has invoked exactly those of them that accept the event, each once
  and in registration order: a listener removed before its turn is not invoked, and
  none that stays is skipped.
\<close>

theorem fan_out_with_later_removals:
  assumes "removes_later_only ext (listeners (cl w))" and "distinct (map uid (listeners (cl w)))"
    and "has_type e"
  shows "\<exists>w'. global_dispatch ext e w = Some (None, w')
           \<and> pruned (listeners (cl w)) (listeners (cl w'))
           \<and> trace w' = trace w @ map (\<lambda>l. ListenerCallback (uid l) (callback l) e)
                                     (filter (\<lambda>l. accepts l e) (listeners (cl w')))"
  using pruning_loop [OF assms, of w 0] pruned_refl [of "listeners (cl w)"]
  by (simp add: global_dispatch_def spec_fan_out_def)

theorem fan_out_with_later_removals_witness:
  "removes_later_only later_removing (listeners (cl three_world)) \<and>
   distinct (map uid (listeners (cl three_world))) \<and> has_type (tagged ''!r1'' event_a) \<and>
   (\<exists>w'. global_dispatch later_removing (tagged ''!r1'' event_a) three_world = Some (None, w')
      \<and> pruned (listeners (cl three_world)) (listeners (cl w'))
      \<and> trace w' = trace three_world
            @ map (\<lambda>l. ListenerCallback (uid l) (callback l) (tagged ''!r1'' event_a))
                (filter (\<lambda>l. accepts l (tagged ''!r1'' event_a)) (listeners (cl w')))) \<and>
   final_listeners (global_dispatch later_removing (tagged ''!r1'' event_a) three_world)
     = Some [\<lparr>uid = 1, callback = 10, event_type = None\<rparr>,
             \<lparr>uid = 2, callback = 20, event_type = Some ''A''\<rparr>] \<and>
   final_trace (global_dispatch later_removing (tagged ''!r1'' event_a) three_world)
     = Some [ListenerCallback 1 10 (tagged ''!r1'' event_a),
             ListenerCallback 2 20 (tagged ''!r1'' event_a)]"
proof -
  have l: "listeners (cl three_world) = three_listeners" by (simp add: three_world_def)
  have h1: "removes_later_only later_removing (listeners (cl three_world))"
    unfolding l by (rule later_removing_later_only)
  have h2: "distinct (map uid (listeners (cl three_world)))"
    by (simp add: l three_listeners_def)
  have h3: "has_type (tagged ''!r1'' event_a)" by code_simp
  have f: "final_listeners (global_dispatch later_removing (tagged ''!r1'' event_a) three_world)
     = Some [\<lparr>uid = 1, callback = 10, event_type = None\<rparr>,
             \<lparr>uid = 2, callback = 20, event_type = Some ''A''\<rparr>]"
    by code_simp
  have g: "final_trace (global_dispatch later_removing (tagged ''!r1'' event_a) three_world)
     = Some [ListenerCallback 1 10 (tagged ''!r1'' event_a),
             ListenerCallback 2 20 (tagged ''!r1'' event_a)]"
    by code_simp
  show ?thesis
    using fan_out_with_later_removals [OF h1 h2 h3] h1 h2 h3 f g by blast
qed

theorem removal_during_dispatch_counterexample:
  "listeners (cl unfiltered_world) = [\<lparr>uid = 1, callback = 10, event_type = None\<rparr>,
                                      \<lparr>uid = 2, callback = 20, event_type = None\<rparr>] \<and>
   outcome (sync (self_removing one_event_reply) 30000 unfiltered_world) = Some None \<and>
   final_trace (sync (self_removing one_event_reply) 30000 unfiltered_world)
     = Some [ApiSync JNull 30000 (sync_filter idle_client),
             SetSyncToken (JStr ''s2''),
             NewRoom ''!r1'' False, SetRoom ''!r1'', SetPrevBatch ''!r1'' (JStr ''p1''),
             PutEvent ''!r1'' (tagged ''!r1'' event_a),
             ListenerCallback 1 10 (tagged ''!r1'' event_a)] \<and>
   final_listeners (sync (self_removing one_event_reply) 30000 unfiltered_world)
     = Some [\<lparr>uid = 2, callback = 20, event_type = None\<rparr>]"
  by code_simp

end
